theory Spec2Isabelle
  imports Main "HOL-Library.Sublist" "HOL-Library.Code_Target_Nat"
begin

section \<open>Paths (pathlib)\<close>

text \<open>
  A path is the list of its components; the absolute path \<open>/a/b.py\<close> is
  \<open>[''a'', ''b.py'']\<close> and the root \<open>/\<close> is \<open>[]\<close>. Path strings are
  \<open>string\<close>s; program text (Python \<open>str\<close>) is a list of code points.
\<close>

type_synonym path = "string list"
type_synonym pystr = "nat list"
type_synonym bytes = "nat list"

definition name :: "path \<Rightarrow> string" where
  "name p = (if p = [] then [] else last p)"

definition str_path :: "path \<Rightarrow> string" where
  "str_path p = (if p = [] then ''/'' else concat (map (\<lambda>c. CHR ''/'' # c) p))"

fun parents :: "path \<Rightarrow> path list" where
  "parents [] = []"
| "parents (c # cs) = butlast (c # cs) # parents (butlast (c # cs))"

text \<open>\<open>str.rfind\<close> of one character: the highest index, or \<open>-1\<close>.\<close>

fun rfind :: "'a list \<Rightarrow> 'a \<Rightarrow> int" where
  "rfind [] c = -1"
| "rfind (x # xs) c =
     (let r = rfind xs c in if r \<ge> 0 then r + 1 else if x = c then 0 else -1)"

text \<open>\<open>PurePath.suffix\<close> and \<open>PurePath.stem\<close>: the name is cut at its last dot,
  unless that dot is the first or the last character.\<close>

definition suffix_of :: "path \<Rightarrow> string" where
  "suffix_of p =
     (let nm = name p; i = rfind nm (CHR ''.'')
      in if 0 < i \<and> i < int (length nm) - 1 then drop (nat i) nm else [])"

definition stem :: "path \<Rightarrow> string" where
  "stem p =
     (let nm = name p; i = rfind nm (CHR ''.'')
      in if 0 < i \<and> i < int (length nm) - 1 then take (nat i) nm else nm)"

definition with_name :: "path \<Rightarrow> string \<Rightarrow> path" where
  "with_name p n = butlast p @ [n]"

text \<open>\<open>str.lower\<close> on the ASCII letters.\<close>

definition lower_char :: "char \<Rightarrow> char" where
  "lower_char c =
     (if 65 \<le> (of_char c :: nat) \<and> (of_char c :: nat) \<le> 90
      then char_of ((of_char c :: nat) + 32) else c)"

definition lower :: "string \<Rightarrow> string" where
  "lower s = map lower_char s"

section \<open>language_config.py\<close>

definition SUPPORTED_LANGUAGES :: "(string \<times> string list) list" where
  "SUPPORTED_LANGUAGES =
    [(''python'', [''.py'', ''.pyw'', ''.pyx'']),
     (''java'', [''.java'']),
     (''cpp'', [''.cpp'', ''.cc'', ''.cxx'', ''.hpp'', ''.hh'', ''.hxx'', ''.h'']),
     (''javascript'', [''.js'', ''.jsx'', ''.ts'', ''.tsx'']),
     (''go'', [''.go'']),
     (''rust'', [''.rs'']),
     (''c'', [''.c'', ''.h'']),
     (''html'', [''.html'', ''.htm'', ''.css'']),
     (''shell'', [''.sh'', ''.bash'', ''.zsh'']),
     (''csharp'', [''.cs'']),
     (''php'', [''.php'', ''.phtml'', ''.php3'', ''.php4'', ''.php5'', ''.phps''])]"

definition FILE_EXTENSION_LANGUAGE_MAP :: "(string \<times> string) list" where
  "FILE_EXTENSION_LANGUAGE_MAP =
    [(''.py'', ''python''), (''.pyw'', ''python''), (''.pyx'', ''python''),
     (''.java'', ''java''),
     (''.cpp'', ''cpp''), (''.cc'', ''cpp''), (''.cxx'', ''cpp''), (''.hpp'', ''cpp''),
     (''.hh'', ''cpp''), (''.hxx'', ''cpp''), (''.h'', ''cpp''),
     (''.js'', ''javascript''), (''.jsx'', ''javascript''),
     (''.ts'', ''typescript''), (''.tsx'', ''typescript''),
     (''.go'', ''go''), (''.rs'', ''rust''), (''.c'', ''c''),
     (''.html'', ''html''), (''.htm'', ''html''), (''.css'', ''html''),
     (''.sh'', ''shell''), (''.bash'', ''shell''), (''.zsh'', ''shell''),
     (''.cs'', ''csharp''),
     (''.php'', ''php''), (''.phtml'', ''php''), (''.php3'', ''php''),
     (''.php4'', ''php''), (''.php5'', ''php''), (''.phps'', ''php'')]"

section \<open>utils.py: get_language_by_extension\<close>

definition get_language_by_extension :: "path \<Rightarrow> string" where
  "get_language_by_extension file_path =
     (let extension = lower (suffix_of file_path)
      in case map_of FILE_EXTENSION_LANGUAGE_MAP extension of
           Some lang \<Rightarrow> lang
         | None \<Rightarrow> ''plaintext'')"


section \<open>UTF-8 (the codec behind \<open>str.encode\<close> and \<open>bytes.decode\<close>)\<close>

text \<open>
  A Python \<open>str\<close> is a list of code points and a \<open>bytes\<close> object a list of
  numbers below 256. \<open>str.encode('utf-8')\<close> raises \<open>UnicodeEncodeError\<close> on a
  surrogate; the texts it accepts are the \<open>valid_text\<close> ones.
\<close>

definition valid_char :: "nat \<Rightarrow> bool" where
  "valid_char c \<longleftrightarrow> c < 0x110000 \<and> \<not> (0xD800 \<le> c \<and> c \<le> 0xDFFF)"

definition valid_text :: "pystr \<Rightarrow> bool" where
  "valid_text s \<longleftrightarrow> list_all valid_char s"

definition utf8_encode_char :: "nat \<Rightarrow> bytes" where
  "utf8_encode_char c =
     (if c < 0x80 then [c]
      else if c < 0x800 then [0xC0 + c div 64, 0x80 + c mod 64]
      else if c < 0x10000 then
        [0xE0 + c div 4096, 0x80 + (c div 64) mod 64, 0x80 + c mod 64]
      else [0xF0 + c div 262144, 0x80 + (c div 4096) mod 64,
            0x80 + (c div 64) mod 64, 0x80 + c mod 64])"

definition utf8_encode :: "pystr \<Rightarrow> bytes" where
  "utf8_encode s = concat (map utf8_encode_char s)"

definition cont :: "nat \<Rightarrow> bool" where
  "cont b \<longleftrightarrow> 0x80 \<le> b \<and> b < 0xC0"

text \<open>One code point off the front of a byte string, strictly: no overlong form, no
  surrogate, nothing above U+10FFFF, no truncated sequence.\<close>

fun decode_one :: "bytes \<Rightarrow> (nat \<times> bytes) option" where
  "decode_one [] = None"
| "decode_one (b0 # bs) =
     (if b0 < 0x80 then Some (b0, bs)
      else if 0xC2 \<le> b0 \<and> b0 < 0xE0 then
        (case bs of
           b1 # r \<Rightarrow>
             if cont b1 then Some ((b0 - 0xC0) * 64 + (b1 - 0x80), r) else None
         | _ \<Rightarrow> None)
      else if 0xE0 \<le> b0 \<and> b0 < 0xF0 then
        (case bs of
           b1 # b2 # r \<Rightarrow>
             (let c = (b0 - 0xE0) * 4096 + (b1 - 0x80) * 64 + (b2 - 0x80)
              in if cont b1 \<and> cont b2 \<and> 0x800 \<le> c \<and> \<not> (0xD800 \<le> c \<and> c \<le> 0xDFFF)
                 then Some (c, r) else None)
         | _ \<Rightarrow> None)
      else if 0xF0 \<le> b0 \<and> b0 < 0xF5 then
        (case bs of
           b1 # b2 # b3 # r \<Rightarrow>
             (let c = (b0 - 0xF0) * 262144 + (b1 - 0x80) * 4096
                      + (b2 - 0x80) * 64 + (b3 - 0x80)
              in if cont b1 \<and> cont b2 \<and> cont b3 \<and> 0x10000 \<le> c \<and> c < 0x110000
                 then Some (c, r) else None)
         | _ \<Rightarrow> None)
      else None)"

lemma decode_one_shorter: "decode_one bs = Some (c, r) \<Longrightarrow> length r < length bs"
proof (cases bs)
  case Nil
  assume "decode_one bs = Some (c, r)"
  with Nil show ?thesis by simp
next
  case (Cons b0 t)
  assume a: "decode_one bs = Some (c, r)"
  have "r = t \<or> r = drop 1 t \<and> t \<noteq> [] \<or> r = drop 2 t \<and> length t \<ge> 2
        \<or> r = drop 3 t \<and> length t \<ge> 3"
    using a unfolding Cons decode_one.simps Let_def
    by (simp split: if_split_asm list.split_asm)
  then show ?thesis using Cons by (auto simp: neq_Nil_conv)
qed

function utf8_decode :: "bytes \<Rightarrow> pystr option" where
  "utf8_decode [] = Some []"
| "utf8_decode (b # bs) =
     (case decode_one (b # bs) of
        None \<Rightarrow> None
      | Some (c, r) \<Rightarrow> map_option ((#) c) (utf8_decode r))"
  by pat_completeness auto
termination
  by (relation "measure length") (auto dest: decode_one_shorter simp del: decode_one.simps)

section \<open>utils.py: FileWriter\<close>

datatype error = UnicodeEncodeError | UnicodeDecodeError | OSError | ValueError

text \<open>The writer's fields, and the files it writes: \<open>disk\<close> maps a path to the
  bytes stored there. File operations themselves are taken to succeed.\<close>

record writer =
  base_filename :: path
  split_size :: int
  force_overwrite :: bool
  current_file_index :: int
  current_file :: path
  current_size :: int
  header :: "pystr option"
  generated_files :: "path list"
  disk :: "path \<rightharpoonup> bytes"

text \<open>A decimal numeral, as an f-string formats an \<open>int\<close>.\<close>

function decimal :: "nat \<Rightarrow> string" where
  "decimal n =
     (if n < 10 then [char_of (48 + n)]
      else decimal (n div 10) @ [char_of (48 + n mod 10)])"
  by pat_completeness auto
termination
  by (relation "measure id") auto

declare decimal.simps [simp del]

definition str_int :: "int \<Rightarrow> string" where
  "str_int i = (if i < 0 then CHR ''-'' # decimal (nat (- i)) else decimal (nat i))"

text \<open>Truthiness of \<open>self.header\<close>: \<open>None\<close> and the empty string are false.\<close>

definition truthy :: "pystr option \<Rightarrow> bool" where
  "truthy h = (case h of None \<Rightarrow> False | Some s \<Rightarrow> s \<noteq> [])"

definition get_filename :: "writer \<Rightarrow> path" where
  "get_filename w =
     (if split_size w = 0 then base_filename w
      else with_name (base_filename w)
             (stem (base_filename w) @ ''_'' @ str_int (current_file_index w)
              @ suffix_of (base_filename w)))"

text \<open>\<open>_init_new_file\<close>. Its test of \<open>exists() and not force_overwrite\<close> only logs
  a warning, so both outcomes of the test continue here.\<close>

definition init_new_file :: "writer \<Rightarrow> writer" where
  "init_new_file w =
     (let f = get_filename w;
          w1 = w\<lparr>current_file := f\<rparr>;
          w2 = (if truthy (header w1) \<and> current_file_index w1 > 1
                then w1\<lparr>disk := (disk w1)(f \<mapsto> utf8_encode (the (header w1))),
                        current_size := int (length (utf8_encode (the (header w1))))\<rparr>
                else w1\<lparr>disk := (disk w1)(f \<mapsto> []), current_size := 0\<rparr>)
      in w2\<lparr>generated_files := generated_files w2 @ [f]\<rparr>)"

definition FileWriter_init :: "(path \<rightharpoonup> bytes) \<Rightarrow> path \<Rightarrow> int \<Rightarrow> bool \<Rightarrow> writer" where
  "FileWriter_init d base kb force =
     init_new_file
       \<lparr>base_filename = base,
        split_size = (if kb > 0 then kb * 1024 else 0),
        force_overwrite = force,
        current_file_index = 1,
        current_file = [],
        current_size = 0,
        header = None,
        generated_files = [],
        disk = d\<rparr>"

text \<open>\<open>_write_chunk\<close>: append to the current file (mode \<open>'a'\<close> creates a missing
  file) and add the chunk's byte length to \<open>current_size\<close>.\<close>

definition write_chunk :: "writer \<Rightarrow> pystr \<Rightarrow> writer" where
  "write_chunk w chunk =
     w\<lparr>disk := (disk w)(current_file w \<mapsto>
                  (case disk w (current_file w) of None \<Rightarrow> [] | Some old \<Rightarrow> old)
                  @ utf8_encode chunk),
       current_size := current_size w + int (length (utf8_encode chunk))\<rparr>"

text \<open>The inner \<open>while chunk_size > 0\<close> loop, up to its first successful decode:
  the decoded prefix (if any) and the value of \<open>chunk_size\<close> on leaving the loop.\<close>

function find_chunk :: "int \<Rightarrow> bytes \<Rightarrow> pystr option \<times> int" where
  "find_chunk chunk_size remaining_bytes =
     (if chunk_size > 0 then
        (case utf8_decode (take (nat chunk_size) remaining_bytes) of
           Some chunk \<Rightarrow> (Some chunk, chunk_size)
         | None \<Rightarrow> find_chunk (chunk_size - 1) remaining_bytes)
      else (None, chunk_size))"
  by pat_completeness auto
termination
  by (relation "measure (\<lambda>(k, bs). nat k)") auto

declare find_chunk.simps [simp del]

definition next_file :: "writer \<Rightarrow> writer" where
  "next_file w = init_new_file (w\<lparr>current_file_index := current_file_index w + 1\<rparr>)"

text \<open>One pass through the body of \<open>while remaining:\<close>. The result is the writer,
  the text still to write, and whether the pass left the loop by \<open>break\<close>.\<close>

definition write_iter :: "writer \<Rightarrow> pystr \<Rightarrow> bool \<times> writer \<times> pystr" where
  "write_iter w remaining =
     (let available0 = max 0 (split_size w - current_size w);
          w1 = (if available0 = 0 then next_file w else w);
          available_size =
            (if available0 = 0 then split_size w1 - current_size w1 else available0);
          remaining_bytes = utf8_encode remaining
      in if int (length remaining_bytes) \<le> available_size
         then (True, write_chunk w1 remaining, remaining)
         else
           (case find_chunk available_size remaining_bytes of
              (Some chunk0, chunk_size) \<Rightarrow>
                (let last_newline = rfind chunk0 10;
                     chunk = (if last_newline > 0 then take (nat (last_newline + 1)) chunk0
                              else chunk0);
                     w2 = write_chunk w1 chunk
                 in (False, next_file w2, drop (length chunk) remaining))
            | (None, chunk_size) \<Rightarrow>
                if chunk_size = 0
                then (False, next_file (write_chunk w1 (take 100 remaining)),
                      drop 100 remaining)
                else (False, w1, remaining)))"

partial_function (option) write_loop :: "writer \<Rightarrow> pystr \<Rightarrow> writer option" where
  "write_loop w remaining =
     (if remaining = [] then Some w
      else (case write_iter w remaining of
              (brk, w', remaining') \<Rightarrow>
                if brk then Some w' else write_loop w' remaining'))"

definition startswith :: "'a list \<Rightarrow> 'a list \<Rightarrow> bool" where
  "startswith s p \<longleftrightarrow> take (length p) s = p"

text \<open>\<open>write\<close>: \<open>None\<close> when the loop never ends, \<open>Inl\<close> when the text cannot be
  encoded (the first \<open>encode\<close> raises), \<open>Inr\<close> the writer on return.\<close>

definition FileWriter_write :: "writer \<Rightarrow> pystr \<Rightarrow> (error + writer) option" where
  "FileWriter_write w content =
     (if \<not> valid_text content then Some (Inl UnicodeEncodeError)
      else
        (let w1 = (if \<not> truthy (header w) \<and> startswith content [35, 32]
                   then w\<lparr>header := Some content\<rparr> else w)
         in if split_size w1 = 0 then Some (Inr (write_chunk w1 content))
            else map_option Inr (write_loop w1 content)))"

text \<open>A sequence of \<open>write\<close> calls; an exception ends it.\<close>

fun writes :: "writer \<Rightarrow> pystr list \<Rightarrow> (error + writer) option" where
  "writes w [] = Some (Inr w)"
| "writes w (c # cs) =
     (case FileWriter_write w c of
        None \<Rightarrow> None
      | Some (Inl e) \<Rightarrow> Some (Inl e)
      | Some (Inr w') \<Rightarrow> writes w' cs)"


definition str_of :: "string \<Rightarrow> pystr" where
  "str_of s = map of_char s"


section \<open>utils.py: get_file_content\<close>

text \<open>
  \<open>Path.read_text(encoding)\<close> reads the bytes at the path (\<open>OSError\<close> when it
  cannot be opened), decodes them (\<open>UnicodeDecodeError\<close> when they are not in the
  encoding) and, being a text-mode read, turns \<open>\r\n\<close> and \<open>\r\<close> into \<open>\n\<close>.
  UTF-8, UTF-16 and Latin-1 are decoded here; the table-driven GB18030 decoder is the
  parameter \<open>gb\<close>.
\<close>

datatype encoding = UTF8 | UTF16 | Latin1 | GB18030

text \<open>UTF-16 code units to code points: a high surrogate must be followed by a low
  one, and a low surrogate cannot stand alone.\<close>

fun utf16_units :: "nat list \<Rightarrow> pystr option" where
  "utf16_units [] = Some []"
| "utf16_units [u] =
     (if 0xD800 \<le> u \<and> u \<le> 0xDFFF then None else Some [u])"
| "utf16_units (u # v # us) =
     (if 0xD800 \<le> u \<and> u \<le> 0xDBFF then
        (if 0xDC00 \<le> v \<and> v \<le> 0xDFFF
         then map_option ((#) (0x10000 + (u - 0xD800) * 1024 + (v - 0xDC00))) (utf16_units us)
         else None)
      else if 0xDC00 \<le> u \<and> u \<le> 0xDFFF then None
      else map_option ((#) u) (utf16_units (v # us)))"

text \<open>Pairs of bytes to code units; a single trailing byte is truncated data.\<close>

fun utf16_pairs :: "bool \<Rightarrow> bytes \<Rightarrow> nat list option" where
  "utf16_pairs big [] = Some []"
| "utf16_pairs big [b] = None"
| "utf16_pairs big (a # b # bs) =
     map_option ((#) (if big then a * 256 + b else b * 256 + a)) (utf16_pairs big bs)"

text \<open>The \<open>utf-16\<close> codec: a byte order mark selects the byte order and is
  dropped; without one the machine's order is used, taken to be little-endian.\<close>

definition utf16_decode :: "bytes \<Rightarrow> pystr option" where
  "utf16_decode bs =
     (case (if take 2 bs = [0xFF, 0xFE] then utf16_pairs False (drop 2 bs)
            else if take 2 bs = [0xFE, 0xFF] then utf16_pairs True (drop 2 bs)
            else utf16_pairs False bs) of
        None \<Rightarrow> None
      | Some us \<Rightarrow> utf16_units us)"

definition latin1_decode :: "bytes \<Rightarrow> pystr option" where
  "latin1_decode bs = Some bs"

definition decode :: "(bytes \<Rightarrow> pystr option) \<Rightarrow> encoding \<Rightarrow> bytes \<Rightarrow> pystr option" where
  "decode gb enc bs =
     (case enc of
        UTF8 \<Rightarrow> utf8_decode bs
      | UTF16 \<Rightarrow> utf16_decode bs
      | Latin1 \<Rightarrow> latin1_decode bs
      | GB18030 \<Rightarrow> gb bs)"

fun universal_newlines :: "pystr \<Rightarrow> pystr" where
  "universal_newlines [] = []"
| "universal_newlines [c] = (if c = 13 then [10] else [c])"
| "universal_newlines (c # d # s) =
     (if c = 13 \<and> d = 10 then 10 # universal_newlines s
      else if c = 13 then 10 # universal_newlines (d # s)
      else c # universal_newlines (d # s))"

definition read_text ::
  "(bytes \<Rightarrow> pystr option) \<Rightarrow> (path \<rightharpoonup> bytes) \<Rightarrow> path \<Rightarrow> encoding \<Rightarrow> error + pystr" where
  "read_text gb fs file_path enc =
     (case fs file_path of
        None \<Rightarrow> Inl OSError
      | Some bs \<Rightarrow>
          (case decode gb enc bs of
             None \<Rightarrow> Inl UnicodeDecodeError
           | Some s \<Rightarrow> Inr (universal_newlines s)))"

text \<open>The \<open>for encoding in encodings\<close> loop inside the \<open>except UnicodeDecodeError\<close>
  handler: only \<open>UnicodeDecodeError\<close> is caught there, anything else leaves the
  function.\<close>

fun try_encodings ::
  "(bytes \<Rightarrow> pystr option) \<Rightarrow> (path \<rightharpoonup> bytes) \<Rightarrow> path \<Rightarrow> encoding list \<Rightarrow> error + pystr" where
  "try_encodings gb fs file_path [] = Inr []"
| "try_encodings gb fs file_path (encoding # encodings) =
     (case read_text gb fs file_path encoding of
        Inr s \<Rightarrow> Inr s
      | Inl UnicodeDecodeError \<Rightarrow> try_encodings gb fs file_path encodings
      | Inl e \<Rightarrow> Inl e)"

definition get_file_content ::
  "(bytes \<Rightarrow> pystr option) \<Rightarrow> (path \<rightharpoonup> bytes) \<Rightarrow> path \<Rightarrow> error + pystr" where
  "get_file_content gb fs file_path =
     (case read_text gb fs file_path UTF8 of
        Inr s \<Rightarrow> Inr s
      | Inl UnicodeDecodeError \<Rightarrow> try_encodings gb fs file_path [UTF16, Latin1, GB18030]
      | Inl e \<Rightarrow> Inr [])"

section \<open>merger.py: CodesMerger\<close>

text \<open>\<open>fnmatch.fnmatch\<close> is the parameter \<open>fm\<close> (name first, pattern second); the
  listing that \<open>rglob('*')\<close> yields and \<open>is_file\<close> are parameters as well.\<close>

record merger =
  source_dir :: path
  output_file :: path
  languages :: "string list"
  file_patterns :: "string list"
  cm_split_size :: int
  n_threads :: int
  ignore_patterns :: "string list"
  cm_force_overwrite :: bool
  extensions :: "string set"

fun collect_extensions :: "string set \<Rightarrow> string list \<Rightarrow> error + string set" where
  "collect_extensions acc [] = Inr acc"
| "collect_extensions acc (lang # langs) =
     (case map_of SUPPORTED_LANGUAGES lang of
        None \<Rightarrow> Inl ValueError
      | Some exts \<Rightarrow> collect_extensions (acc \<union> set exts) langs)"

definition CodesMerger_init ::
  "bool \<Rightarrow> path \<Rightarrow> path \<Rightarrow> string list \<Rightarrow> string list \<Rightarrow> int \<Rightarrow> int \<Rightarrow> string list \<Rightarrow> bool
   \<Rightarrow> error + merger" where
  "CodesMerger_init source_is_dir src out langs pats split threads ignore force =
     (if \<not> source_is_dir then Inl ValueError
      else
        (case collect_extensions {} langs of
           Inl e \<Rightarrow> Inl e
         | Inr exts \<Rightarrow>
             Inr \<lparr>source_dir = src, output_file = out, languages = langs,
                  file_patterns = pats, cm_split_size = split,
                  n_threads = max 1 (min threads 16), ignore_patterns = ignore,
                  cm_force_overwrite = force, extensions = exts\<rparr>))"

definition matches_pattern :: "(string \<Rightarrow> string \<Rightarrow> bool) \<Rightarrow> path \<Rightarrow> string list \<Rightarrow> bool" where
  "matches_pattern fm file_path patterns =
     (if patterns = [] then False
      else list_ex (\<lambda>pattern. fm (name file_path) pattern \<or> fm (str_path file_path) pattern)
             patterns)"

definition should_ignore :: "merger \<Rightarrow> (string \<Rightarrow> string \<Rightarrow> bool) \<Rightarrow> path \<Rightarrow> bool" where
  "should_ignore m fm p =
     list_ex (\<lambda>pattern. fm (name p) pattern \<or> fm (str_path p) pattern) (ignore_patterns m)"

definition should_include :: "merger \<Rightarrow> (string \<Rightarrow> string \<Rightarrow> bool) \<Rightarrow> path \<Rightarrow> bool" where
  "should_include m fm file_path =
     (if languages m = [] \<and> file_patterns m = [] then False
      else if file_patterns m \<noteq> [] \<and> matches_pattern fm file_path (file_patterns m) then True
      else if languages m \<noteq> [] \<and> suffix_of file_path \<in> extensions m then True
      else False)"

fun find_files_loop ::
  "merger \<Rightarrow> (string \<Rightarrow> string \<Rightarrow> bool) \<Rightarrow> (path \<Rightarrow> bool) \<Rightarrow> path list \<Rightarrow> path list \<Rightarrow> path list" where
  "find_files_loop m fm is_file [] found_files = found_files"
| "find_files_loop m fm is_file (file_path # rest) found_files =
     (if \<not> is_file file_path then find_files_loop m fm is_file rest found_files
      else if should_ignore m fm file_path \<or> list_ex (should_ignore m fm) (parents file_path)
      then find_files_loop m fm is_file rest found_files
      else if should_include m fm file_path
      then find_files_loop m fm is_file rest (found_files @ [file_path])
      else find_files_loop m fm is_file rest found_files)"

definition find_files ::
  "merger \<Rightarrow> (string \<Rightarrow> string \<Rightarrow> bool) \<Rightarrow> (path \<Rightarrow> bool) \<Rightarrow> path list \<Rightarrow> path list" where
  "find_files m fm is_file listing = find_files_loop m fm is_file listing []"

text \<open>\<open>relative_to\<close> and the string of a relative path.\<close>

definition relative_to :: "path \<Rightarrow> path \<Rightarrow> error + path" where
  "relative_to p base = (if prefix base p then Inr (drop (length base) p) else Inl ValueError)"

fun join_slash :: "path \<Rightarrow> string" where
  "join_slash [] = ''.''"
| "join_slash [c] = c"
| "join_slash (c # d # cs) = c @ ''/'' @ join_slash (d # cs)"

definition markdown_content :: "path \<Rightarrow> string \<Rightarrow> pystr \<Rightarrow> pystr" where
  "markdown_content relative_path lang_identifier content =
     str_of (''## '' @ join_slash relative_path) @ [10, 10]
     @ str_of (''```'' @ lang_identifier) @ [10]
     @ content
     @ [10] @ str_of ''```'' @ [10, 10]"

text \<open>\<open>process_file\<close>: an empty or unreadable file is skipped, anything else is
  written as one block by a single \<open>write\<close> call.\<close>

definition process_file ::
  "(bytes \<Rightarrow> pystr option) \<Rightarrow> (path \<rightharpoonup> bytes) \<Rightarrow> merger \<Rightarrow> path \<Rightarrow> writer
   \<Rightarrow> (error + writer) option" where
  "process_file gb fs m file_path file_writer =
     (case relative_to file_path (source_dir m) of
        Inl e \<Rightarrow> Some (Inl e)
      | Inr relative_path \<Rightarrow>
          (case get_file_content gb fs file_path of
             Inl e \<Rightarrow> Some (Inl e)
           | Inr content \<Rightarrow>
               if content = [] then Some (Inr file_writer)
               else FileWriter_write file_writer
                      (markdown_content relative_path
                         (get_language_by_extension file_path) content)))"

section \<open>Notions the properties are stated with\<close>

text \<open>The bytes of a file, empty when it is missing.\<close>

definition content_of :: "writer \<Rightarrow> path \<Rightarrow> bytes" where
  "content_of w f = (case disk w f of None \<Rightarrow> [] | Some bs \<Rightarrow> bs)"

text \<open>The name the \<open>i\<close>-th split file is to have.\<close>

definition split_name :: "path \<Rightarrow> int \<Rightarrow> path" where
  "split_name base i = with_name base (stem base @ ''_'' @ str_int i @ suffix_of base)"

text \<open>The first of a sequence of writes that begins with \<open># \<close>.\<close>

definition first_heading :: "pystr list \<Rightarrow> pystr option" where
  "first_heading ws = List.find (\<lambda>c. startswith c [35, 32]) ws"

text \<open>The header fits the budget of \<open>kb\<close> kilobytes (or there is none).\<close>

definition heading_fits :: "int \<Rightarrow> pystr list \<Rightarrow> bool" where
  "heading_fits kb ws =
     (case first_heading ws of
        None \<Rightarrow> True
      | Some h \<Rightarrow> int (length (utf8_encode h)) \<le> kb * 1024)"

text \<open>A file keeps to the budget \<open>B\<close> apart from one forced chunk at its end: it is
  at most \<open>B\<close> bytes followed by the encoding of at most 100 characters.\<close>

definition within_budget :: "int \<Rightarrow> bytes \<Rightarrow> bool" where
  "within_budget B bs \<longleftrightarrow>
     (\<exists>body forced. bs = body @ utf8_encode forced \<and> int (length body) \<le> B
                    \<and> length forced \<le> 100)"

text \<open>The header prefix taken off a file, and the output files joined, the header
  taken off every file after the first.\<close>

definition strip_header :: "bytes \<Rightarrow> bytes \<Rightarrow> bytes" where
  "strip_header h bs = (if prefix h bs then drop (length h) bs else bs)"

definition header_bytes :: "writer \<Rightarrow> bytes" where
  "header_bytes w = (case header w of None \<Rightarrow> [] | Some h \<Rightarrow> utf8_encode h)"

definition joined_output :: "writer \<Rightarrow> bytes" where
  "joined_output w =
     (case generated_files w of
        [] \<Rightarrow> []
      | f # fs \<Rightarrow>
          content_of w f @ concat (map (\<lambda>g. strip_header (header_bytes w) (content_of w g)) fs))"


section \<open>Invariants of the writer\<close>

text \<open>The bytes with which a new file starts: the header, for a file after the first
  once a header is known.\<close>

definition seed :: "writer \<Rightarrow> bytes" where
  "seed w = (if truthy (header w) \<and> current_file_index w > 1
             then utf8_encode (the (header w)) else [])"

text \<open>Splitting into files of \<open>B\<close> bytes under the base name \<open>b\<close>: the files made so
  far are numbered from 1 to the current index, in this order.\<close>

definition names_ok :: "path \<Rightarrow> int \<Rightarrow> writer \<Rightarrow> bool" where
  "names_ok b B w \<longleftrightarrow>
     base_filename w = b \<and> split_size w = B \<and> 1 \<le> current_file_index w
     \<and> generated_files w = map (split_name b) [1..current_file_index w]
     \<and> current_file w = split_name b (current_file_index w)"

text \<open>Every generated file holds the encoding of a text.\<close>

definition files_utf8 :: "writer \<Rightarrow> bool" where
  "files_utf8 w \<longleftrightarrow>
     (\<forall>f \<in> set (generated_files w). \<exists>t. valid_text t \<and> disk w f = Some (utf8_encode t))
     \<and> (\<forall>h. header w = Some h \<longrightarrow> valid_text h)
     \<and> current_file w \<in> set (generated_files w)"

text \<open>The size bookkeeping: \<open>current_size\<close> is the size of the current file and within
  the budget, every generated file is within the budget apart from a forced chunk, and
  the header fits the budget.\<close>

definition sizes_ok :: "int \<Rightarrow> writer \<Rightarrow> bool" where
  "sizes_ok B w \<longleftrightarrow>
     split_size w = B \<and> 0 < B
     \<and> current_file w \<in> set (generated_files w)
     \<and> (\<exists>cur. disk w (current_file w) = Some cur \<and> int (length cur) = current_size w)
     \<and> current_size w \<le> B
     \<and> (\<forall>f \<in> set (generated_files w). \<exists>bs. disk w f = Some bs \<and> within_budget B bs)
     \<and> (truthy (header w) \<longrightarrow> int (length (utf8_encode (the (header w)))) \<le> B)"

text \<open>The same without the two facts about the current file, as it holds between
  appending a forced chunk and opening the next file.\<close>

definition sizes_pre :: "int \<Rightarrow> writer \<Rightarrow> bool" where
  "sizes_pre B w \<longleftrightarrow>
     split_size w = B \<and> 0 < B
     \<and> (\<forall>f \<in> set (generated_files w). \<exists>bs. disk w f = Some bs \<and> within_budget B bs)
     \<and> (truthy (header w) \<longrightarrow> int (length (utf8_encode (the (header w)))) \<le> B)"

text \<open>Every file after the first starts with the header.\<close>

definition seeded :: "writer \<Rightarrow> bool" where
  "seeded w \<longleftrightarrow>
     generated_files w \<noteq> [] \<and> 1 \<le> current_file_index w
     \<and> (\<forall>f \<in> set (tl (generated_files w)). prefix (header_bytes w) (content_of w f))"

text \<open>The files, joined, hold the text \<open>W\<close>.\<close>

definition joined :: "pystr \<Rightarrow> writer \<Rightarrow> bool" where
  "joined W w \<longleftrightarrow>
     generated_files w \<noteq> [] \<and> distinct (generated_files w)
     \<and> current_file w = last (generated_files w)
     \<and> joined_output w = utf8_encode W"

section \<open>Facts about the UTF-8 codec\<close>

lemma dec_enc_1: "c < 0x80 \<Longrightarrow> decode_one (utf8_encode_char c @ r) = Some (c, r)"
  by (simp add: utf8_encode_char_def)

lemma dec_enc_2:
  assumes "0x80 \<le> c" "c < 0x800"
  shows "decode_one (utf8_encode_char c @ r) = Some (c, r)"
proof -
  define q m where "q = c div 64" and "m = c mod 64"
  have enc: "utf8_encode_char c = [0xC0 + q, 0x80 + m]"
    using assms by (simp add: utf8_encode_char_def q_def m_def)
  have m: "m < 64" by (simp add: m_def)
  have c: "q * 64 + m = c" by (simp add: q_def m_def)
  have q: "2 \<le> q" "q < 32" using assms c m by linarith+
  show ?thesis unfolding enc using q m c by (simp add: cont_def)
qed

lemma dec_enc_3:
  assumes "0x800 \<le> c" "c < 0x10000" "\<not> (0xD800 \<le> c \<and> c \<le> 0xDFFF)"
  shows "decode_one (utf8_encode_char c @ r) = Some (c, r)"
proof -
  define d q m n where "d = c div 64" and "q = d div 64" and "m = d mod 64" and "n = c mod 64"
  have q4096: "c div 4096 = q"
    unfolding q_def d_def by (simp add: div_mult2_eq [symmetric])
  have enc: "utf8_encode_char c = [0xE0 + q, 0x80 + m, 0x80 + n]"
    using assms q4096 by (simp add: utf8_encode_char_def m_def n_def d_def)
  have m: "m < 64" "n < 64" by (simp_all add: m_def n_def)
  have d: "q * 64 + m = d" by (simp add: q_def m_def)
  have c0: "d * 64 + n = c" by (simp add: d_def n_def)
  have c: "q * 4096 + m * 64 + n = c" using d c0 by linarith
  have q: "q < 16" using assms c m by linarith
  have v: "2048 \<le> q * 4096 + m * 64 + n"
    "\<not> (55296 \<le> q * 4096 + m * 64 + n \<and> q * 4096 + m * 64 + n \<le> 57343)"
    using assms unfolding c by simp_all
  show ?thesis unfolding enc using q m v by (simp add: cont_def c)
qed


lemma decode_one_4:
  assumes "q < 5" "m < 64" "n < 64" "k < 64"
    "65536 \<le> q * 262144 + m * 4096 + n * 64 + k"
    "q * 262144 + m * 4096 + n * 64 + k < 1114112"
  shows "decode_one ([0xF0 + q, 0x80 + m, 0x80 + n, 0x80 + k] @ r)
         = Some (q * 262144 + m * 4096 + n * 64 + k, r)"
  using assms by (simp add: cont_def)

lemma dec_enc_4:
  assumes "0x10000 \<le> c" "c < 0x110000"
  shows "decode_one (utf8_encode_char c @ r) = Some (c, r)"
proof -
  define d e q m n k where "d = c div 64" and "e = d div 64" and "q = e div 64"
    and "m = e mod 64" and "n = d mod 64" and "k = c mod 64"
  have e4096: "c div 4096 = e"
    unfolding e_def d_def by (simp add: div_mult2_eq [symmetric])
  have q262144: "c div 262144 = q"
    unfolding q_def e_def d_def by (simp add: div_mult2_eq [symmetric])
  have enc: "utf8_encode_char c = [0xF0 + q, 0x80 + m, 0x80 + n, 0x80 + k]"
    using assms q262144 e4096 by (simp add: utf8_encode_char_def m_def n_def k_def d_def)
  have m: "m < 64" "n < 64" "k < 64" by (simp_all add: m_def n_def k_def)
  have e: "q * 64 + m = e" by (simp add: q_def m_def)
  have d: "e * 64 + n = d" by (simp add: e_def n_def)
  have c0: "d * 64 + k = c" by (simp add: d_def k_def)
  have c: "q * 262144 + m * 4096 + n * 64 + k = c" using e d c0 by linarith
  have q: "q < 5" using assms c m by linarith
  have v: "65536 \<le> q * 262144 + m * 4096 + n * 64 + k"
    "q * 262144 + m * 4096 + n * 64 + k < 1114112"
    using assms unfolding c by simp_all
  show ?thesis unfolding enc using decode_one_4 [OF q m v, of r] unfolding c .
qed

lemma decode_one_encode_char:
  "valid_char c \<Longrightarrow> decode_one (utf8_encode_char c @ r) = Some (c, r)"
  using dec_enc_1 [of c r] dec_enc_2 [of c r] dec_enc_3 [of c r] dec_enc_4 [of c r]
  unfolding valid_char_def by linarith


lemma utf8_encode_char_length:
  "1 \<le> length (utf8_encode_char c) \<and> length (utf8_encode_char c) \<le> 4"
  by (simp add: utf8_encode_char_def)

lemma utf8_encode_char_not_Nil [simp]: "utf8_encode_char c \<noteq> []"
  by (simp add: utf8_encode_char_def)

lemma decode_one_short_1: "0x80 \<le> b0 \<Longrightarrow> decode_one [b0] = None"
  by simp

lemma decode_one_short_2: "0xE0 \<le> b0 \<Longrightarrow> decode_one [b0, b1] = None"
  by simp

lemma decode_one_short_3: "0xF0 \<le> b0 \<Longrightarrow> decode_one [b0, b1, b2] = None"
  by simp

lemma take_list2: "0 < k \<Longrightarrow> k < 2 \<Longrightarrow> take k [a, b] = [a]"
  by (cases k) auto

lemma take_list3: "0 < k \<Longrightarrow> k < 3 \<Longrightarrow> take k [a, b, c] = [a] \<or> take k [a, b, c] = [a, b]"
  by (cases k; cases "k - 1") auto

lemma take_list4:
  "0 < k \<Longrightarrow> k < 4 \<Longrightarrow>
   take k [a, b, c, d] = [a] \<or> take k [a, b, c, d] = [a, b] \<or> take k [a, b, c, d] = [a, b, c]"
  by (cases k; cases "k - 1"; cases "k - 2") auto

lemma decode_one_truncated:
  assumes "0 < k" "k < length (utf8_encode_char c)"
  shows "decode_one (take k (utf8_encode_char c)) = None"
proof -
  consider "c < 0x80" | "0x80 \<le> c" "c < 0x800" | "0x800 \<le> c" "c < 0x10000" | "0x10000 \<le> c"
    by linarith
  then show ?thesis
  proof cases
    case 1
    with assms show ?thesis by (simp add: utf8_encode_char_def)
  next
    case 2
    then have e: "utf8_encode_char c = [0xC0 + c div 64, 0x80 + c mod 64]"
      by (simp add: utf8_encode_char_def)
    with assms have "take k (utf8_encode_char c) = [0xC0 + c div 64]"
      by (simp add: take_list2)
    then show ?thesis using decode_one_short_1 [of "0xC0 + c div 64"] by simp
  next
    case 3
    then have e: "utf8_encode_char c =
        [0xE0 + c div 4096, 0x80 + (c div 64) mod 64, 0x80 + c mod 64]"
      by (simp add: utf8_encode_char_def)
    with assms have "k < 3" by simp
    have l: "(128::nat) \<le> 0xE0 + c div 4096" "(0xE0::nat) \<le> 0xE0 + c div 4096"
      by simp_all
    from take_list3 [OF assms(1) \<open>k < 3\<close>] show ?thesis
      unfolding e
      using decode_one_short_1 [OF l(1)] decode_one_short_2 [OF l(2)]
      by metis
  next
    case 4
    then have e: "utf8_encode_char c =
        [0xF0 + c div 262144, 0x80 + (c div 4096) mod 64,
         0x80 + (c div 64) mod 64, 0x80 + c mod 64]"
      by (simp add: utf8_encode_char_def)
    with assms have "k < 4" by simp
    have l: "(128::nat) \<le> 0xF0 + c div 262144" "(0xE0::nat) \<le> 0xF0 + c div 262144"
      "(0xF0::nat) \<le> 0xF0 + c div 262144" by simp_all
    from take_list4 [OF assms(1) \<open>k < 4\<close>] show ?thesis
      unfolding e
      using decode_one_short_1 [OF l(1)] decode_one_short_2 [OF l(2)] decode_one_short_3 [OF l(3)]
      by metis
  qed
qed

declare decode_one.simps [simp del]

lemma utf8_decode_step:
  "decode_one bs = Some (c, r) \<Longrightarrow> utf8_decode bs = map_option ((#) c) (utf8_decode r)"
  by (cases bs) (simp_all add: decode_one.simps(1))

lemma utf8_decode_fail: "bs \<noteq> [] \<Longrightarrow> decode_one bs = None \<Longrightarrow> utf8_decode bs = None"
  by (cases bs) simp_all

lemma utf8_decode_Nil_iff: "utf8_decode bs = Some [] \<longleftrightarrow> bs = []"
  by (cases bs) (auto split: option.splits)

lemma utf8_encode_Nil [simp]: "utf8_encode [] = []"
  by (simp add: utf8_encode_def)

lemma utf8_encode_Cons: "utf8_encode (c # s) = utf8_encode_char c @ utf8_encode s"
  by (simp add: utf8_encode_def)

lemma utf8_encode_append: "utf8_encode (a @ b) = utf8_encode a @ utf8_encode b"
  by (simp add: utf8_encode_def)

lemma utf8_encode_eq_Nil [simp]: "utf8_encode s = [] \<longleftrightarrow> s = []"
  by (cases s) (simp_all add: utf8_encode_Cons)

lemma valid_text_Nil [simp]: "valid_text []"
  by (simp add: valid_text_def)

lemma valid_text_Cons: "valid_text (c # s) \<longleftrightarrow> valid_char c \<and> valid_text s"
  by (simp add: valid_text_def)

lemma valid_text_append: "valid_text (a @ b) \<longleftrightarrow> valid_text a \<and> valid_text b"
  by (simp add: valid_text_def)

lemma valid_text_take: "valid_text s \<Longrightarrow> valid_text (take n s)"
  unfolding valid_text_def list_all_iff by (auto dest: in_set_takeD)

lemma valid_text_drop: "valid_text s \<Longrightarrow> valid_text (drop n s)"
  unfolding valid_text_def list_all_iff by (auto dest: in_set_dropD)

lemma utf8_roundtrip: "valid_text s \<Longrightarrow> utf8_decode (utf8_encode s) = Some s"
proof (induction s)
  case Nil
  show ?case by simp
next
  case (Cons c s)
  then have v: "valid_char c" and vs: "valid_text s" by (simp_all add: valid_text_Cons)
  from decode_one_encode_char [OF v, of "utf8_encode s"] Cons.IH [OF vs]
  show ?case by (simp add: utf8_encode_Cons utf8_decode_step)
qed

text \<open>A byte prefix of an encoded text decodes only when it ends between two code
  points, and then to a prefix of the text.\<close>

lemma utf8_decode_take:
  "valid_text s \<Longrightarrow> utf8_decode (take k (utf8_encode s)) = Some t \<Longrightarrow>
   prefix t s \<and> utf8_encode t = take k (utf8_encode s)"
proof (induction s arbitrary: k t)
  case Nil
  then show ?case by simp
next
  case (Cons c s)
  from Cons.prems(1) have v: "valid_char c" and vs: "valid_text s"
    by (simp_all add: valid_text_Cons)
  let ?e = "utf8_encode_char c"
  consider "k = 0" | "0 < k" "k < length ?e" | "length ?e \<le> k" by linarith
  then show ?case
  proof cases
    case 1
    with Cons.prems(2) show ?thesis by simp
  next
    case 2
    then have tk: "take k (utf8_encode (c # s)) = take k ?e"
      by (simp add: utf8_encode_Cons)
    have "take k ?e \<noteq> []" using 2 by simp
    with decode_one_truncated [OF 2] have "utf8_decode (take k ?e) = None"
      by (rule utf8_decode_fail [rotated])
    with Cons.prems(2) tk show ?thesis by simp
  next
    case 3
    then have tk: "take k (utf8_encode (c # s)) = ?e @ take (k - length ?e) (utf8_encode s)"
      by (simp add: utf8_encode_Cons)
    from decode_one_encode_char [OF v]
    have "utf8_decode (?e @ take (k - length ?e) (utf8_encode s))
          = map_option ((#) c) (utf8_decode (take (k - length ?e) (utf8_encode s)))"
      by (rule utf8_decode_step)
    with Cons.prems(2) tk obtain t' where
      t': "utf8_decode (take (k - length ?e) (utf8_encode s)) = Some t'" and t: "t = c # t'"
      by auto
    from Cons.IH [OF vs t'] 3 show ?thesis
      by (simp add: t utf8_encode_Cons)
  qed
qed

lemma utf8_encode_length_le: "length s \<le> length (utf8_encode s)"
proof (induction s)
  case Nil show ?case by simp
next
  case (Cons c s)
  with utf8_encode_char_length [of c] show ?case by (simp add: utf8_encode_Cons)
qed

lemma find_chunk_Some:
  "find_chunk k bs = (Some t, k') \<Longrightarrow>
   0 < k' \<and> k' \<le> k \<and> utf8_decode (take (nat k') bs) = Some t"
proof (induction k bs rule: find_chunk.induct)
  case (1 chunk_size remaining_bytes)
  show ?case
  proof (cases "chunk_size > 0")
    case False
    with "1.prems" show ?thesis by (simp add: find_chunk.simps [of chunk_size])
  next
    case True
    show ?thesis
    proof (cases "utf8_decode (take (nat chunk_size) remaining_bytes)")
      case None
      with True "1.prems" have "find_chunk (chunk_size - 1) remaining_bytes = (Some t, k')"
        by (simp add: find_chunk.simps [of chunk_size])
      from "1.IH" [OF True None this] show ?thesis by simp
    next
      case (Some a)
      with True "1.prems" show ?thesis by (simp add: find_chunk.simps [of chunk_size])
    qed
  qed
qed

lemma find_chunk_None:
  "find_chunk k bs = (None, k') \<Longrightarrow> k' = min k 0"
proof (induction k bs rule: find_chunk.induct)
  case (1 chunk_size remaining_bytes)
  show ?case
  proof (cases "chunk_size > 0")
    case False
    with "1.prems" show ?thesis by (simp add: find_chunk.simps [of chunk_size])
  next
    case True
    show ?thesis
    proof (cases "utf8_decode (take (nat chunk_size) remaining_bytes)")
      case None
      with True "1.prems" have "find_chunk (chunk_size - 1) remaining_bytes = (None, k')"
        by (simp add: find_chunk.simps [of chunk_size])
      from "1.IH" [OF True None this] True show ?thesis by simp
    next
      case (Some a)
      with True "1.prems" show ?thesis by (simp add: find_chunk.simps [of chunk_size])
    qed
  qed
qed

text \<open>What the search for a split point finds in the encoding of a valid text.\<close>

lemma find_chunk_valid:
  assumes "valid_text s" "s \<noteq> []" "find_chunk k (utf8_encode s) = (Some t, k')"
  shows "prefix t s" "t \<noteq> []" "utf8_encode t = take (nat k') (utf8_encode s)"
    "int (length (utf8_encode t)) \<le> k" "valid_text t"
proof -
  from find_chunk_Some [OF assms(3)]
  have k': "0 < k'" "k' \<le> k" and d: "utf8_decode (take (nat k') (utf8_encode s)) = Some t"
    by simp_all
  from utf8_decode_take [OF assms(1) d]
  show p: "prefix t s" and e: "utf8_encode t = take (nat k') (utf8_encode s)" by simp_all
  from k' assms(2) have "take (nat k') (utf8_encode s) \<noteq> []" by simp
  with d show "t \<noteq> []" using utf8_decode_Nil_iff by fastforce
  from e k' show "int (length (utf8_encode t)) \<le> k" by simp
  from p assms(1) show "valid_text t"
    by (auto simp: prefix_def valid_text_append)
qed

section \<open>Facts about the writer\<close>

lemma prefix_utf8_encode_length:
  "prefix a b \<Longrightarrow> length (utf8_encode a) \<le> length (utf8_encode b)"
  by (auto simp: prefix_def utf8_encode_append)

lemma prefix_valid_text: "prefix a b \<Longrightarrow> valid_text b \<Longrightarrow> valid_text a"
  by (auto simp: prefix_def valid_text_append)

lemma prefix_take_drop: "prefix a b \<Longrightarrow> a @ drop (length a) b = b"
  by (auto simp: prefix_def)

subsection \<open>What the writer's operations change\<close>

lemma init_new_file_eq:
  "init_new_file w =
     w\<lparr>current_file := get_filename w,
       disk := (disk w)(get_filename w \<mapsto> seed w),
       current_size := int (length (seed w)),
       generated_files := generated_files w @ [get_filename w]\<rparr>"
  by (simp add: init_new_file_def seed_def Let_def)

lemma next_file_eq:
  "next_file w =
     w\<lparr>current_file_index := current_file_index w + 1,
       current_file := get_filename (w\<lparr>current_file_index := current_file_index w + 1\<rparr>),
       disk := (disk w)(get_filename (w\<lparr>current_file_index := current_file_index w + 1\<rparr>)
                 \<mapsto> seed (w\<lparr>current_file_index := current_file_index w + 1\<rparr>)),
       current_size := int (length (seed (w\<lparr>current_file_index := current_file_index w + 1\<rparr>))),
       generated_files := generated_files w
          @ [get_filename (w\<lparr>current_file_index := current_file_index w + 1\<rparr>)]\<rparr>"
  by (simp add: next_file_def init_new_file_eq)

lemma next_file_fields [simp]:
  "base_filename (next_file w) = base_filename w"
  "split_size (next_file w) = split_size w"
  "force_overwrite (next_file w) = force_overwrite w"
  "header (next_file w) = header w"
  "current_file_index (next_file w) = current_file_index w + 1"
  by (simp_all add: next_file_eq)

lemma write_chunk_fields [simp]:
  "base_filename (write_chunk w c) = base_filename w"
  "split_size (write_chunk w c) = split_size w"
  "force_overwrite (write_chunk w c) = force_overwrite w"
  "header (write_chunk w c) = header w"
  "current_file_index (write_chunk w c) = current_file_index w"
  "current_file (write_chunk w c) = current_file w"
  "generated_files (write_chunk w c) = generated_files w"
  "current_size (write_chunk w c) = current_size w + int (length (utf8_encode c))"
  by (simp_all add: write_chunk_def)

lemma get_filename_split:
  "split_size w \<noteq> 0 \<Longrightarrow> get_filename w = split_name (base_filename w) (current_file_index w)"
  by (simp add: get_filename_def split_name_def)

text \<open>The four ways one pass through the loop body can go.\<close>

lemma write_iter_cases:
  assumes v: "valid_text remaining" and ne: "remaining \<noteq> []"
    and it: "write_iter w remaining = (brk, w2, remaining2)"
  defines "w1 \<equiv> (if split_size w \<le> current_size w then next_file w else w)"
  obtains
    (fit) "brk" "w2 = write_chunk w1 remaining" "remaining2 = remaining"
      "current_size w1 + int (length (utf8_encode remaining)) \<le> split_size w"
  | (split) chunk where "\<not> brk" "w2 = next_file (write_chunk w1 chunk)"
      "remaining2 = drop (length chunk) remaining" "chunk \<noteq> []" "prefix chunk remaining"
      "current_size w1 + int (length (utf8_encode chunk)) \<le> split_size w"
  | (forced) "\<not> brk" "w2 = next_file (write_chunk w1 (take 100 remaining))"
      "remaining2 = drop 100 remaining" "current_size w1 \<le> split_size w"
  | (stuck) "\<not> brk" "w2 = next_file w" "remaining2 = remaining"
      "split_size w \<le> current_size w" "split_size w < current_size (next_file w)"
proof -
  define available0 where "available0 = max 0 (split_size w - current_size w)"
  define available_size where
    "available_size = (if available0 = 0 then split_size w1 - current_size w1 else available0)"
  have a0: "available0 = 0 \<longleftrightarrow> split_size w \<le> current_size w"
    by (auto simp: available0_def)
  have w1: "w1 = (if available0 = 0 then next_file w else w)"
    by (simp add: w1_def a0)
  have ss: "split_size w1 = split_size w" by (simp add: w1_def)
  have av: "available_size = split_size w - current_size w1"
    by (auto simp: available_size_def ss w1_def a0 available0_def)
  have unf: "write_iter w remaining =
     (if int (length (utf8_encode remaining)) \<le> available_size
      then (True, write_chunk w1 remaining, remaining)
      else (case find_chunk available_size (utf8_encode remaining) of
              (Some chunk0, chunk_size) \<Rightarrow>
                (let last_newline = rfind chunk0 10;
                     chunk = (if last_newline > 0 then take (nat (last_newline + 1)) chunk0
                              else chunk0);
                     w2 = write_chunk w1 chunk
                 in (False, next_file w2, drop (length chunk) remaining))
            | (None, chunk_size) \<Rightarrow>
                if chunk_size = 0
                then (False, next_file (write_chunk w1 (take 100 remaining)),
                      drop 100 remaining)
                else (False, w1, remaining)))"
    unfolding write_iter_def Let_def available_size_def available0_def w1 ..
  show thesis
  proof (cases "int (length (utf8_encode remaining)) \<le> available_size")
    case True
    with it unf have "brk" "w2 = write_chunk w1 remaining" "remaining2 = remaining" by auto
    moreover from True av
    have "current_size w1 + int (length (utf8_encode remaining)) \<le> split_size w" by simp
    ultimately show thesis by (rule fit)
  next
    case nofit: False
    obtain r k' where fc: "find_chunk available_size (utf8_encode remaining) = (r, k')"
      by (cases "find_chunk available_size (utf8_encode remaining)")
    show thesis
    proof (cases r)
      case (Some chunk0)
      define chunk where "chunk = (if rfind chunk0 10 > 0
        then take (nat (rfind chunk0 10 + 1)) chunk0 else chunk0)"
      from it unf nofit fc Some
      have r: "\<not> brk" "w2 = next_file (write_chunk w1 chunk)"
        "remaining2 = drop (length chunk) remaining"
        by (auto simp: Let_def chunk_def)
      from fc Some have fc': "find_chunk available_size (utf8_encode remaining) = (Some chunk0, k')"
        by simp
      note f = find_chunk_valid [OF v ne fc']
      have pc: "prefix chunk chunk0" by (simp add: chunk_def take_is_prefix)
      have cne: "chunk \<noteq> []" using f(2) by (auto simp: chunk_def)
      from pc f(1) have p: "prefix chunk remaining" by (rule prefix_order.trans)
      from prefix_utf8_encode_length [OF pc] f(4)
      have "int (length (utf8_encode chunk)) \<le> available_size" by linarith
      with av have "current_size w1 + int (length (utf8_encode chunk)) \<le> split_size w"
        by simp
      with r cne p show thesis by (rule split)
    next
      case None
      with fc have k': "k' = min available_size 0" by (simp add: find_chunk_None)
      show thesis
      proof (cases "available_size < 0")
        case False
        with k' have "k' = 0" by simp
        with it unf nofit fc None
        have "\<not> brk" "w2 = next_file (write_chunk w1 (take 100 remaining))"
          "remaining2 = drop 100 remaining" by auto
        moreover from False av have "current_size w1 \<le> split_size w" by simp
        ultimately show thesis by (rule forced)
      next
        case True
        with k' have "k' \<noteq> 0" by simp
        with it unf nofit fc None
        have r: "\<not> brk" "w2 = w1" "remaining2 = remaining" by auto
        have nf: "w1 = next_file w"
        proof (rule ccontr)
          assume "w1 \<noteq> next_file w"
          then have "w1 = w" "\<not> split_size w \<le> current_size w"
            by (auto simp: w1_def split: if_splits)
          with av True show False by simp
        qed
        then have "split_size w \<le> current_size w"
          using True av by (auto simp: w1_def split: if_splits)
        moreover from True av nf have "split_size w < current_size (next_file w)" by simp
        ultimately show thesis using r nf by (auto intro: stuck)
      qed
    qed
  qed
qed

subsection \<open>The loop\<close>

lemma write_loop_rule:
  assumes run: "write_loop w remaining = Some w'"
    and init: "I w remaining"
    and step: "\<And>w remaining brk w2 remaining2.
       I w remaining \<Longrightarrow> remaining \<noteq> [] \<Longrightarrow> write_iter w remaining = (brk, w2, remaining2)
       \<Longrightarrow> (if brk then Q w2 else I w2 remaining2)"
    and fin: "\<And>w. I w [] \<Longrightarrow> Q w"
  shows "Q w'"
proof -
  have "I w remaining \<longrightarrow> Q w'"
  proof (rule write_loop.raw_induct [where P = "\<lambda>w r y. I w r \<longrightarrow> Q y", OF _ run])
    fix loop w remaining y
    assume ih: "\<And>w r y. loop w r = Some y \<Longrightarrow> I w r \<longrightarrow> Q y"
      and body: "(if remaining = [] then Some w
                  else case write_iter w remaining of
                         (brk, w', remaining') \<Rightarrow>
                           if brk then Some w' else loop w' remaining') = Some y"
    show "I w remaining \<longrightarrow> Q y"
    proof
      assume i: "I w remaining"
      show "Q y"
      proof (cases "remaining = []")
        case True
        with body i show ?thesis by (auto intro: fin)
      next
        case False
        obtain brk w2 r2 where it: "write_iter w remaining = (brk, w2, r2)"
          by (cases "write_iter w remaining") auto
        show ?thesis
        proof (cases brk)
          case True
          with step [OF i False it] body False it show ?thesis by simp
        next
          case nb: False
          with step [OF i False it] have "I w2 r2" by simp
          moreover from body False it nb have "loop w2 r2 = Some y" by simp
          ultimately show ?thesis using ih by blast
        qed
      qed
    qed
  qed
  with init show ?thesis by simp
qed

lemma write_loop_total:
  assumes init: "I w remaining"
    and step: "\<And>w remaining brk w2 remaining2.
       I w remaining \<Longrightarrow> remaining \<noteq> [] \<Longrightarrow> write_iter w remaining = (brk, w2, remaining2)
       \<Longrightarrow> brk \<or> (I w2 remaining2 \<and> length remaining2 < length remaining)"
  shows "\<exists>w'. write_loop w remaining = Some w'"
  using init
proof (induction remaining arbitrary: w rule: length_induct)
  case (1 remaining)
  show ?case
  proof (cases "remaining = []")
    case True
    then show ?thesis by (simp add: write_loop.simps)
  next
    case False
    obtain brk w2 r2 where it: "write_iter w remaining = (brk, w2, r2)"
      by (cases "write_iter w remaining") auto
    from step [OF "1.prems" False it] show ?thesis
    proof
      assume brk
      with False it show ?thesis by (simp add: write_loop.simps [of w remaining])
    next
      assume a: "I w2 r2 \<and> length r2 < length remaining"
      with "1.IH" obtain w' where "write_loop w2 r2 = Some w'" by blast
      with False it show ?thesis by (simp add: write_loop.simps [of w remaining])
    qed
  qed
qed

text \<open>A property kept by opening the next file and by appending a chunk is kept by
  the whole loop.\<close>

lemma write_iter_preserves:
  assumes P: "P w"
    and nf: "\<And>w. P w \<Longrightarrow> P (next_file w)"
    and wc: "\<And>w c. P w \<Longrightarrow> valid_text c \<Longrightarrow> P (write_chunk w c)"
    and v: "valid_text remaining" and ne: "remaining \<noteq> []"
    and it: "write_iter w remaining = (brk, w2, remaining2)"
  shows "P w2 \<and> valid_text remaining2"
proof -
  define w1 where "w1 = (if split_size w \<le> current_size w then next_file w else w)"
  have P1: "P w1" using P nf by (simp add: w1_def)
  from v ne it show ?thesis
  proof (cases rule: write_iter_cases)
    case fit
    with P1 wc v show ?thesis by (simp add: w1_def)
  next
    case (split chunk)
    from split(5) v have "valid_text chunk" by (rule prefix_valid_text)
    with P1 have "P (next_file (write_chunk w1 chunk))" by (intro nf wc)
    with split v show ?thesis by (simp add: w1_def valid_text_drop)
  next
    case forced
    from v have "valid_text (take 100 remaining)" by (rule valid_text_take)
    with P1 have "P (next_file (write_chunk w1 (take 100 remaining)))" by (intro nf wc)
    with forced v show ?thesis by (simp add: w1_def valid_text_drop)
  next
    case stuck
    with P nf v show ?thesis by simp
  qed
qed

lemma write_loop_preserves:
  assumes run: "write_loop w remaining = Some w'"
    and P: "P w"
    and nf: "\<And>w. P w \<Longrightarrow> P (next_file w)"
    and wc: "\<And>w c. P w \<Longrightarrow> valid_text c \<Longrightarrow> P (write_chunk w c)"
    and v: "valid_text remaining"
  shows "P w'"
proof (rule write_loop_rule [where I = "\<lambda>w r. P w \<and> valid_text r" and Q = P, OF run])
  show "P w \<and> valid_text remaining" using P v by simp
next
  fix w remaining brk w2 remaining2
  assume "P w \<and> valid_text remaining" "remaining \<noteq> []"
    "write_iter w remaining = (brk, w2, remaining2)"
  with write_iter_preserves [of P w remaining brk w2 remaining2] nf wc
  show "if brk then P w2 else P w2 \<and> valid_text remaining2" by auto
next
  fix w assume "P w \<and> valid_text []" then show "P w" by simp
qed

lemma FileWriter_write_valid:
  "FileWriter_write w c = Some (Inr w') \<Longrightarrow> valid_text c"
  by (auto simp: FileWriter_write_def split: if_splits)

lemma FileWriter_write_preserves:
  assumes run: "FileWriter_write w c = Some (Inr w')"
    and P: "P w"
    and nf: "\<And>w. P w \<Longrightarrow> P (next_file w)"
    and wc: "\<And>w c. P w \<Longrightarrow> valid_text c \<Longrightarrow> P (write_chunk w c)"
    and hd: "\<not> truthy (header w) \<Longrightarrow> startswith c [35, 32] \<Longrightarrow> P (w\<lparr>header := Some c\<rparr>)"
  shows "P w'"
proof -
  from run have v: "valid_text c" by (rule FileWriter_write_valid)
  define w1 where "w1 = (if \<not> truthy (header w) \<and> startswith c [35, 32]
                         then w\<lparr>header := Some c\<rparr> else w)"
  have P1: "P w1" using P hd by (simp add: w1_def)
  show ?thesis
  proof (cases "split_size w1 = 0")
    case True
    with run v have "w' = write_chunk w1 c"
      by (auto simp: FileWriter_write_def w1_def Let_def)
    with P1 v wc show ?thesis by simp
  next
    case False
    with run v have "write_loop w1 c = Some w'"
      by (auto simp: FileWriter_write_def w1_def Let_def)
    from write_loop_preserves [of w1 c w' P, OF this P1 nf wc v] show ?thesis .
  qed
qed

lemma FileWriter_write_capture:
  assumes run: "FileWriter_write w c = Some (Inr w')"
    and cap: "\<not> truthy (header w)" "startswith c [35, 32]"
    and P: "P (w\<lparr>header := Some c\<rparr>)"
    and nf: "\<And>w. P w \<Longrightarrow> P (next_file w)"
    and wc: "\<And>w c. P w \<Longrightarrow> valid_text c \<Longrightarrow> P (write_chunk w c)"
  shows "P w'"
proof -
  from run have v: "valid_text c" by (rule FileWriter_write_valid)
  show ?thesis
  proof (cases "split_size w = 0")
    case True
    with run v cap have "w' = write_chunk (w\<lparr>header := Some c\<rparr>) c"
      by (auto simp: FileWriter_write_def Let_def)
    with P v wc show ?thesis by simp
  next
    case False
    with run v cap have "write_loop (w\<lparr>header := Some c\<rparr>) c = Some w'"
      by (auto simp: FileWriter_write_def Let_def)
    from write_loop_preserves [of "w\<lparr>header := Some c\<rparr>" c w' P, OF this P nf wc v]
    show ?thesis .
  qed
qed

lemma writes_preserves:
  assumes run: "writes w cs = Some (Inr w')"
    and P: "P w"
    and nf: "\<And>w. P w \<Longrightarrow> P (next_file w)"
    and wc: "\<And>w c. P w \<Longrightarrow> valid_text c \<Longrightarrow> P (write_chunk w c)"
    and hd: "\<And>w c. P w \<Longrightarrow> c \<in> set cs \<Longrightarrow> \<not> truthy (header w) \<Longrightarrow> startswith c [35, 32]
                 \<Longrightarrow> P (w\<lparr>header := Some c\<rparr>)"
  shows "P w'"
  using run P hd
proof (induction cs arbitrary: w)
  case Nil
  then show ?case by simp
next
  case (Cons c cs)
  from Cons.prems(1) obtain w1 where w1: "FileWriter_write w c = Some (Inr w1)"
    and rest: "writes w1 cs = Some (Inr w')"
    by (auto split: option.splits sum.splits)
  have "P w1"
    by (rule FileWriter_write_preserves [of w c w1 P, OF w1 Cons.prems(2) nf wc])
       (auto intro: Cons.prems(3) [OF Cons.prems(2)])
  from Cons.IH [OF rest this] Cons.prems(3) show ?case by auto
qed

subsection \<open>File names\<close>

lemma names_ok_next_file: "B \<noteq> 0 \<Longrightarrow> names_ok b B w \<Longrightarrow> names_ok b B (next_file w)"
  by (auto simp: names_ok_def next_file_eq get_filename_split upto_rec2)

lemma names_ok_write_chunk: "names_ok b B w \<Longrightarrow> names_ok b B (write_chunk w c)"
  by (simp add: names_ok_def)

lemma names_ok_header: "names_ok b B (w\<lparr>header := h\<rparr>) = names_ok b B w"
  by (simp add: names_ok_def)

lemma FileWriter_init_eq:
  "FileWriter_init d base kb force =
     \<lparr>base_filename = base,
      split_size = (if kb > 0 then kb * 1024 else 0),
      force_overwrite = force,
      current_file_index = 1,
      current_file = (if kb > 0 then split_name base 1 else base),
      current_size = 0,
      header = None,
      generated_files = [if kb > 0 then split_name base 1 else base],
      disk = d((if kb > 0 then split_name base 1 else base) \<mapsto> [])\<rparr>"
  by (simp add: FileWriter_init_def init_new_file_eq seed_def truthy_def get_filename_def
      split_name_def)

lemma names_ok_init:
  "0 < kb \<Longrightarrow> names_ok base (kb * 1024) (FileWriter_init d base kb force)"
  by (simp add: FileWriter_init_eq names_ok_def)

lemma writes_names_ok:
  assumes "0 < kb" "writes (FileWriter_init d base kb force) ws = Some (Inr w')"
  shows "names_ok base (kb * 1024) w'"
proof (rule writes_preserves [of _ ws w' "names_ok base (kb * 1024)", OF assms(2)])
  show "names_ok base (kb * 1024) (FileWriter_init d base kb force)"
    using assms(1) by (rule names_ok_init)
qed (use assms(1) in \<open>auto simp: names_ok_header intro: names_ok_next_file names_ok_write_chunk\<close>)

declare write_loop.simps [code]

subsection \<open>Writing without a budget\<close>

lemma content_of_write_chunk:
  "content_of (write_chunk w c) f =
     (if f = current_file w then content_of w f @ utf8_encode c else content_of w f)"
  by (simp add: content_of_def write_chunk_def)

lemma FileWriter_write_nosplit:
  assumes "split_size w = 0" "FileWriter_write w c = Some (Inr w')"
  shows "w' = write_chunk (if \<not> truthy (header w) \<and> startswith c [35, 32]
                           then w\<lparr>header := Some c\<rparr> else w) c"
  using assms by (auto simp: FileWriter_write_def Let_def split: if_splits)

lemma writes_nosplit:
  assumes "split_size w = 0" "writes w ws = Some (Inr w')"
  shows "split_size w' = 0 \<and> base_filename w' = base_filename w
         \<and> generated_files w' = generated_files w \<and> current_file w' = current_file w
         \<and> current_file_index w' = current_file_index w
         \<and> content_of w' (current_file w) = content_of w (current_file w) @ utf8_encode (concat ws)
         \<and> (\<forall>f. f \<noteq> current_file w \<longrightarrow> content_of w' f = content_of w f)"
  using assms
proof (induction ws arbitrary: w)
  case Nil
  then show ?case by simp
next
  case (Cons c cs)
  from Cons.prems(2) obtain w1 where w1: "FileWriter_write w c = Some (Inr w1)"
    and rest: "writes w1 cs = Some (Inr w')"
    by (auto split: option.splits sum.splits)
  note e = FileWriter_write_nosplit [OF Cons.prems(1) w1]
  have f: "split_size w1 = 0" "base_filename w1 = base_filename w"
    "generated_files w1 = generated_files w" "current_file w1 = current_file w"
    "current_file_index w1 = current_file_index w"
    by (simp_all add: e Cons.prems(1))
  have c1: "content_of w1 g =
     (if g = current_file w then content_of w g @ utf8_encode c else content_of w g)" for g
    unfolding e by (simp add: content_of_write_chunk) (simp add: content_of_def)
  from Cons.IH [OF f(1) rest] f c1 show ?case
    by (simp add: utf8_encode_append)
qed

lemma writes_nosplit_total:
  assumes "split_size w = 0" "list_all valid_text ws"
  shows "\<exists>w'. writes w ws = Some (Inr w')"
  using assms
proof (induction ws arbitrary: w)
  case Nil
  then show ?case by simp
next
  case (Cons c cs)
  define w1 where "w1 = write_chunk (if \<not> truthy (header w) \<and> startswith c [35, 32]
                           then w\<lparr>header := Some c\<rparr> else w) c"
  from Cons.prems have w1: "FileWriter_write w c = Some (Inr w1)"
    by (simp add: FileWriter_write_def Let_def w1_def)
  have "split_size w1 = 0" using Cons.prems(1) by (simp add: w1_def)
  from Cons.IH [OF this] Cons.prems(2) w1 show ?case by simp
qed

lemma FileWriter_init_nosplit:
  "kb \<le> 0 \<Longrightarrow> split_size (FileWriter_init d base kb force) = 0"
  "kb \<le> 0 \<Longrightarrow> generated_files (FileWriter_init d base kb force) = [base]"
  "kb \<le> 0 \<Longrightarrow> current_file (FileWriter_init d base kb force) = base"
  "kb \<le> 0 \<Longrightarrow> content_of (FileWriter_init d base kb force) base = []"
  by (simp_all add: FileWriter_init_eq content_of_def)

subsection \<open>Files hold encoded text\<close>

lemma files_utf8_next_file: "files_utf8 w \<Longrightarrow> files_utf8 (next_file w)"
proof -
  assume a: "files_utf8 w"
  let ?w = "w\<lparr>current_file_index := current_file_index w + 1\<rparr>"
  have "\<exists>t. valid_text t \<and> seed ?w = utf8_encode t"
  proof (cases "truthy (header w) \<and> current_file_index w + 1 > 1")
    case True
    then obtain h where "header w = Some h" by (auto simp: truthy_def split: option.splits)
    with a True show ?thesis by (auto simp: files_utf8_def seed_def)
  next
    case False
    then have "seed ?w = utf8_encode []" by (auto simp: seed_def)
    then show ?thesis using valid_text_Nil by blast
  qed
  with a show ?thesis
    by (auto simp: files_utf8_def next_file_eq)
qed

lemma files_utf8_write_chunk:
  assumes "files_utf8 w" "valid_text c"
  shows "files_utf8 (write_chunk w c)"
proof -
  from assms(1) obtain t where t: "valid_text t" "disk w (current_file w) = Some (utf8_encode t)"
    by (auto simp: files_utf8_def)
  then have "disk (write_chunk w c) (current_file w) = Some (utf8_encode (t @ c))"
    by (simp add: write_chunk_def utf8_encode_append)
  moreover have "valid_text (t @ c)" using t assms(2) by (simp add: valid_text_append)
  moreover have "disk (write_chunk w c) f = disk w f" if "f \<noteq> current_file w" for f
    using that by (simp add: write_chunk_def)
  ultimately show ?thesis using assms(1)
    unfolding files_utf8_def write_chunk_fields by metis
qed

lemma files_utf8_header: "files_utf8 w \<Longrightarrow> valid_text c \<Longrightarrow> files_utf8 (w\<lparr>header := Some c\<rparr>)"
  by (simp add: files_utf8_def)

lemma files_utf8_init: "files_utf8 (FileWriter_init d base kb force)"
proof -
  have "\<exists>t. valid_text t \<and> [] = utf8_encode t"
    by (rule exI [of _ "[]"]) simp
  then show ?thesis unfolding files_utf8_def FileWriter_init_eq by auto
qed

lemma FileWriter_write_files_utf8:
  assumes "FileWriter_write w c = Some (Inr w')" "files_utf8 w"
  shows "files_utf8 w'"
proof (rule FileWriter_write_preserves [of w c w' files_utf8, OF assms])
  show "files_utf8 (w\<lparr>header := Some c\<rparr>)"
    using assms(2) FileWriter_write_valid [OF assms(1)] by (rule files_utf8_header)
qed (auto intro: files_utf8_next_file files_utf8_write_chunk)

lemma writes_files_utf8:
  assumes "writes w cs = Some (Inr w')" "files_utf8 w"
  shows "files_utf8 w'"
  using assms
proof (induction cs arbitrary: w)
  case Nil
  then show ?case by simp
next
  case (Cons c cs)
  from Cons.prems(1) obtain w1 where w1: "FileWriter_write w c = Some (Inr w1)"
    and rest: "writes w1 cs = Some (Inr w')"
    by (auto split: option.splits sum.splits)
  from Cons.IH [OF rest FileWriter_write_files_utf8 [OF w1 Cons.prems(2)]] show ?case .
qed

subsection \<open>The header\<close>

lemma startswith_heading_not_Nil: "startswith c [35, 32] \<Longrightarrow> c \<noteq> []"
  by (auto simp: startswith_def)

lemma write_loop_header:
  assumes "write_loop w remaining = Some w'" "valid_text remaining"
  shows "header w' = header w"
  by (rule write_loop_preserves [of w remaining w' "\<lambda>x. header x = header w", OF assms(1) _ _ _ assms(2)])
     simp_all

lemma FileWriter_write_header:
  assumes "FileWriter_write w c = Some (Inr w')"
  shows "header w' = (if \<not> truthy (header w) \<and> startswith c [35, 32] then Some c else header w)"
proof -
  from assms have v: "valid_text c" by (rule FileWriter_write_valid)
  define w1 where "w1 = (if \<not> truthy (header w) \<and> startswith c [35, 32]
                         then w\<lparr>header := Some c\<rparr> else w)"
  have h1: "header w1 = (if \<not> truthy (header w) \<and> startswith c [35, 32] then Some c else header w)"
    by (simp add: w1_def)
  show ?thesis
  proof (cases "split_size w1 = 0")
    case True
    with assms v have "w' = write_chunk w1 c"
      by (auto simp: FileWriter_write_def w1_def Let_def)
    with h1 show ?thesis by simp
  next
    case False
    with assms v have "write_loop w1 c = Some w'"
      by (auto simp: FileWriter_write_def w1_def Let_def)
    from write_loop_header [OF this v] h1 show ?thesis by simp
  qed
qed

lemma writes_header_set:
  assumes "writes w cs = Some (Inr w')" "truthy (header w)"
  shows "header w' = header w"
  using assms
proof (induction cs arbitrary: w)
  case Nil
  then show ?case by simp
next
  case (Cons c cs)
  from Cons.prems(1) obtain w1 where w1: "FileWriter_write w c = Some (Inr w1)"
    and rest: "writes w1 cs = Some (Inr w')"
    by (auto split: option.splits sum.splits)
  from FileWriter_write_header [OF w1] Cons.prems(2) have "header w1 = header w" by simp
  with Cons.IH [OF rest] Cons.prems(2) show ?case by simp
qed

lemma writes_header_unset:
  assumes "writes w cs = Some (Inr w')" "\<not> truthy (header w)"
  shows "header w' = (case first_heading cs of None \<Rightarrow> header w | Some h \<Rightarrow> Some h)"
  using assms
proof (induction cs arbitrary: w)
  case Nil
  then show ?case by (simp add: first_heading_def)
next
  case (Cons c cs)
  from Cons.prems(1) obtain w1 where w1: "FileWriter_write w c = Some (Inr w1)"
    and rest: "writes w1 cs = Some (Inr w')"
    by (auto split: option.splits sum.splits)
  show ?case
  proof (cases "startswith c [35, 32]")
    case True
    with FileWriter_write_header [OF w1] Cons.prems(2) have h: "header w1 = Some c" by simp
    with True have "truthy (header w1)"
      by (simp add: truthy_def startswith_heading_not_Nil)
    from writes_header_set [OF rest this] h True show ?thesis
      by (simp add: first_heading_def)
  next
    case False
    with FileWriter_write_header [OF w1] have h: "header w1 = header w" by simp
    with Cons.IH [OF rest] Cons.prems(2) False show ?thesis
      by (auto simp: first_heading_def split: option.splits)
  qed
qed

lemma seed_next:
  "1 \<le> current_file_index w \<Longrightarrow>
   seed (w\<lparr>current_file_index := current_file_index w + 1\<rparr>) = header_bytes w"
  by (auto simp: seed_def header_bytes_def truthy_def split: option.splits)

lemma content_of_next_file:
  "content_of (next_file w) f =
     (if f = get_filename (w\<lparr>current_file_index := current_file_index w + 1\<rparr>)
      then seed (w\<lparr>current_file_index := current_file_index w + 1\<rparr>) else content_of w f)"
  by (simp add: content_of_def next_file_eq)

lemma header_bytes_next_file [simp]: "header_bytes (next_file w) = header_bytes w"
  by (simp add: header_bytes_def)

lemma header_bytes_write_chunk [simp]: "header_bytes (write_chunk w c) = header_bytes w"
  by (simp add: header_bytes_def)

lemma generated_files_next_file:
  "generated_files (next_file w) =
     generated_files w @ [get_filename (w\<lparr>current_file_index := current_file_index w + 1\<rparr>)]"
  by (simp add: next_file_eq)

lemma seeded_next_file: "seeded w \<Longrightarrow> seeded (next_file w)"
  unfolding seeded_def
  by (auto simp: generated_files_next_file content_of_next_file seed_next)

lemma seeded_write_chunk: "seeded w \<Longrightarrow> seeded (write_chunk w c)"
  unfolding seeded_def
  by (auto simp: content_of_write_chunk)

subsection \<open>Different indices give different file names\<close>

lemma decimal_not_Nil: "decimal n \<noteq> []"
  by (subst decimal.simps) simp

lemma char_of_digit_inj:
  assumes "a < 10" "b < 10" "char_of (48 + a :: nat) = (char_of (48 + b :: nat) :: char)"
  shows "a = b"
proof -
  from assms(3) have "(48 + a) mod 256 = (48 + b) mod 256"
    by (simp add: char_of_eq_iff take_bit_eq_mod)
  with assms(1,2) show ?thesis by simp
qed

lemma decimal_inj: "decimal n = decimal m \<Longrightarrow> n = m"
proof (induction n arbitrary: m rule: decimal.induct)
  case (1 n)
  show ?case
  proof (cases "n < 10")
    case True
    show ?thesis
    proof (cases "m < 10")
      case m: True
      from "1.prems" True m have "char_of (48 + n) = (char_of (48 + m) :: char)"
        by (simp add: decimal.simps [of n] decimal.simps [of m])
      with True m show ?thesis by (rule char_of_digit_inj)
    next
      case False
      with "1.prems" True have "[char_of (48 + n)] = decimal (m div 10) @ [char_of (48 + m mod 10)]"
        by (simp add: decimal.simps [of n] decimal.simps [of m])
      with decimal_not_Nil [of "m div 10"] show ?thesis by (cases "decimal (m div 10)") auto
    qed
  next
    case False
    show ?thesis
    proof (cases "m < 10")
      case True
      with "1.prems" False have "decimal (n div 10) @ [char_of (48 + n mod 10)] = [char_of (48 + m)]"
        by (simp add: decimal.simps [of n] decimal.simps [of m])
      with decimal_not_Nil [of "n div 10"] show ?thesis by (cases "decimal (n div 10)") auto
    next
      case m: False
      from "1.prems" False m
      have e: "decimal (n div 10) = decimal (m div 10)"
        and l: "char_of (48 + n mod 10) = (char_of (48 + m mod 10) :: char)"
        by (simp_all add: decimal.simps [of n] decimal.simps [of m])
      from "1.IH" [OF False e] have "n div 10 = m div 10" .
      moreover from l have "n mod 10 = m mod 10" by (auto intro: char_of_digit_inj)
      ultimately show ?thesis by (metis div_mult_mod_eq)
    qed
  qed
qed

lemma str_int_inj: "0 \<le> i \<Longrightarrow> 0 \<le> j \<Longrightarrow> str_int i = str_int j \<Longrightarrow> i = j"
  by (auto simp: str_int_def dest: decimal_inj)

lemma split_name_inj:
  assumes "0 \<le> i" "0 \<le> j" "split_name b i = split_name b j"
  shows "i = j"
proof -
  from assms(3) have "str_int i = str_int j"
    by (simp add: split_name_def with_name_def)
  with assms(1,2) show ?thesis by (rule str_int_inj)
qed

lemma distinct_split_names: "distinct (map (split_name b) [1..n])"
proof -
  have "inj_on (split_name b) (set [1..n])"
  proof (rule inj_onI)
    fix x y assume "x \<in> set [1..n]" "y \<in> set [1..n]" "split_name b x = split_name b y"
    then show "x = y" using split_name_inj [of x y b] by simp
  qed
  then show ?thesis by (simp add: distinct_map)
qed

lemma names_ok_distinct: "names_ok b B w \<Longrightarrow> distinct (generated_files w)"
  by (simp add: names_ok_def distinct_split_names)

lemma names_ok_fresh:
  assumes "names_ok b B w"
  shows "split_name b (current_file_index w + 1) \<notin> set (generated_files w)"
proof
  assume "split_name b (current_file_index w + 1) \<in> set (generated_files w)"
  with assms obtain i where "1 \<le> i" "i \<le> current_file_index w"
    "split_name b (current_file_index w + 1) = split_name b i"
    by (auto simp: names_ok_def)
  with split_name_inj [of "current_file_index w + 1" i b] show False by simp
qed

lemma names_ok_last:
  "names_ok b B w \<Longrightarrow> generated_files w \<noteq> [] \<and> current_file w = last (generated_files w)"
  by (auto simp: names_ok_def upto_rec2 [of 1 "current_file_index w"])

subsection \<open>Sizes\<close>

lemma within_budget_small: "int (length bs) \<le> B \<Longrightarrow> within_budget B bs"
  unfolding within_budget_def by (rule exI [of _ bs], rule exI [of _ "[]"]) simp

lemma within_budget_forced:
  "int (length body) \<le> B \<Longrightarrow> length c \<le> 100 \<Longrightarrow> within_budget B (body @ utf8_encode c)"
  unfolding within_budget_def by blast

lemma sizes_ok_pre: "sizes_ok B w \<Longrightarrow> sizes_pre B w"
  by (simp add: sizes_ok_def sizes_pre_def)

lemma sizes_pre_next_file:
  assumes "sizes_pre B w"
  shows "sizes_ok B (next_file w)"
proof -
  let ?w = "w\<lparr>current_file_index := current_file_index w + 1\<rparr>"
  have s: "int (length (seed ?w)) \<le> B"
    using assms by (auto simp: seed_def sizes_pre_def)
  then have wb: "within_budget B (seed ?w)" by (rule within_budget_small)
  show ?thesis
    unfolding sizes_ok_def next_file_eq using assms s wb
    by (auto simp: sizes_pre_def)
qed

lemma sizes_ok_next_file: "sizes_ok B w \<Longrightarrow> sizes_ok B (next_file w)"
  by (intro sizes_pre_next_file sizes_ok_pre)

lemma sizes_ok_write_chunk:
  assumes "sizes_ok B w" "current_size w + int (length (utf8_encode c)) \<le> B"
  shows "sizes_ok B (write_chunk w c)"
proof -
  from assms(1) obtain cur where cur: "disk w (current_file w) = Some cur"
    "int (length cur) = current_size w"
    by (auto simp: sizes_ok_def)
  with assms(2) have "within_budget B (cur @ utf8_encode c)"
    by (intro within_budget_small) simp
  with cur assms show ?thesis
    unfolding sizes_ok_def write_chunk_def by auto
qed

lemma sizes_pre_forced:
  assumes "sizes_ok B w" "length c \<le> 100"
  shows "sizes_pre B (write_chunk w c)"
proof -
  from assms(1) obtain cur where cur: "disk w (current_file w) = Some cur"
    "int (length cur) = current_size w" "current_size w \<le> B"
    by (auto simp: sizes_ok_def)
  with assms(2) have "within_budget B (cur @ utf8_encode c)"
    by (intro within_budget_forced) simp_all
  with cur assms(1) show ?thesis
    unfolding sizes_ok_def sizes_pre_def write_chunk_def by auto
qed

lemma write_iter_sizes:
  assumes s: "sizes_ok B w" and v: "valid_text remaining" and ne: "remaining \<noteq> []"
    and it: "write_iter w remaining = (brk, w2, remaining2)"
  shows "sizes_ok B w2 \<and> valid_text remaining2 \<and> (\<not> brk \<longrightarrow> length remaining2 < length remaining)"
proof -
  define w1 where "w1 = (if split_size w \<le> current_size w then next_file w else w)"
  have s1: "sizes_ok B w1" using s by (simp add: w1_def sizes_ok_next_file)
  have B: "split_size w = B" using s by (simp add: sizes_ok_def)
  from v ne it show ?thesis
  proof (cases rule: write_iter_cases)
    case fit
    note f = fit [folded w1_def]
    from s1 f(4) B have "sizes_ok B (write_chunk w1 remaining)"
      by (intro sizes_ok_write_chunk) simp_all
    with f v show ?thesis by simp
  next
    case (split chunk)
    note f = split [folded w1_def]
    from f(6) B s1 have "sizes_ok B (write_chunk w1 chunk)"
      by (intro sizes_ok_write_chunk) simp_all
    then have "sizes_ok B (next_file (write_chunk w1 chunk))" by (rule sizes_ok_next_file)
    moreover from f(4) ne have "length (drop (length chunk) remaining) < length remaining"
      by simp
    ultimately show ?thesis using f v by (simp add: valid_text_drop)
  next
    case forced
    note f = forced [folded w1_def]
    have "sizes_pre B (write_chunk w1 (take 100 remaining))"
      using s1 by (rule sizes_pre_forced) simp
    then have "sizes_ok B (next_file (write_chunk w1 (take 100 remaining)))"
      by (rule sizes_pre_next_file)
    moreover from ne have "length (drop 100 remaining) < length remaining" by simp
    ultimately show ?thesis using f v by (simp add: valid_text_drop)
  next
    case stuck
    from s have "sizes_ok B (next_file w)" by (rule sizes_ok_next_file)
    with stuck(5) B show ?thesis by (simp add: sizes_ok_def)
  qed
qed

lemma write_loop_sizes:
  assumes "sizes_ok B w" "valid_text remaining"
  shows "\<exists>w'. write_loop w remaining = Some w' \<and> sizes_ok B w'"
proof -
  let ?I = "\<lambda>w r. sizes_ok B w \<and> valid_text r"
  have "\<exists>w'. write_loop w remaining = Some w'"
  proof (rule write_loop_total [where I = ?I])
    show "?I w remaining" using assms by simp
  next
    fix w remaining brk w2 remaining2
    assume "?I w remaining" "remaining \<noteq> []" "write_iter w remaining = (brk, w2, remaining2)"
    with write_iter_sizes [of B w remaining brk w2 remaining2]
    show "brk \<or> (?I w2 remaining2 \<and> length remaining2 < length remaining)" by auto
  qed
  then obtain w' where run: "write_loop w remaining = Some w'" ..
  have "sizes_ok B w'"
  proof (rule write_loop_rule [where I = ?I and Q = "sizes_ok B", OF run])
    show "?I w remaining" using assms by simp
  next
    fix w remaining brk w2 remaining2
    assume "?I w remaining" "remaining \<noteq> []" "write_iter w remaining = (brk, w2, remaining2)"
    with write_iter_sizes [of B w remaining brk w2 remaining2]
    show "if brk then sizes_ok B w2 else ?I w2 remaining2" by auto
  next
    fix w assume "?I w []" then show "sizes_ok B w" by simp
  qed
  with run show ?thesis by blast
qed

lemma sizes_ok_header:
  "sizes_ok B w \<Longrightarrow> int (length (utf8_encode c)) \<le> B \<Longrightarrow> sizes_ok B (w\<lparr>header := Some c\<rparr>)"
  by (simp add: sizes_ok_def)

lemma FileWriter_write_sizes:
  assumes s: "sizes_ok B w" and v: "valid_text c"
    and fits: "\<not> truthy (header w) \<and> startswith c [35, 32] \<longrightarrow> int (length (utf8_encode c)) \<le> B"
  shows "\<exists>w'. FileWriter_write w c = Some (Inr w') \<and> sizes_ok B w'"
proof -
  define w1 where "w1 = (if \<not> truthy (header w) \<and> startswith c [35, 32]
                         then w\<lparr>header := Some c\<rparr> else w)"
  have s1: "sizes_ok B w1" using s fits by (simp add: w1_def sizes_ok_header)
  then have "split_size w1 \<noteq> 0" by (simp add: sizes_ok_def)
  with v have "FileWriter_write w c = map_option Inr (write_loop w1 c)"
    by (simp add: FileWriter_write_def w1_def Let_def)
  with write_loop_sizes [OF s1 v] show ?thesis by auto
qed

lemma writes_sizes:
  assumes "sizes_ok B w" "list_all valid_text ws"
    and "\<not> truthy (header w) \<longrightarrow>
           (case first_heading ws of None \<Rightarrow> True | Some h \<Rightarrow> int (length (utf8_encode h)) \<le> B)"
  shows "\<exists>w'. writes w ws = Some (Inr w') \<and> sizes_ok B w'"
  using assms
proof (induction ws arbitrary: w)
  case Nil
  then show ?case by simp
next
  case (Cons c cs)
  from Cons.prems(2) have v: "valid_text c" and vs: "list_all valid_text cs" by simp_all
  have fits: "\<not> truthy (header w) \<and> startswith c [35, 32] \<longrightarrow> int (length (utf8_encode c)) \<le> B"
    using Cons.prems(3) by (auto simp: first_heading_def)
  from FileWriter_write_sizes [OF Cons.prems(1) v fits]
  obtain w1 where w1: "FileWriter_write w c = Some (Inr w1)" and s1: "sizes_ok B w1" by blast
  have "\<not> truthy (header w1) \<longrightarrow>
           (case first_heading cs of None \<Rightarrow> True | Some h \<Rightarrow> int (length (utf8_encode h)) \<le> B)"
  proof
    assume nt: "\<not> truthy (header w1)"
    from FileWriter_write_header [OF w1] nt
    have "\<not> truthy (header w)" "\<not> startswith c [35, 32]"
      by (auto simp: truthy_def dest: startswith_heading_not_Nil split: if_splits)
    with Cons.prems(3) show "case first_heading cs of None \<Rightarrow> True
        | Some h \<Rightarrow> int (length (utf8_encode h)) \<le> B"
      by (simp add: first_heading_def)
  qed
  from Cons.IH [OF s1 vs this] w1 show ?case by simp
qed

lemma sizes_ok_init: "0 < kb \<Longrightarrow> sizes_ok (kb * 1024) (FileWriter_init d base kb force)"
  by (simp add: sizes_ok_def FileWriter_init_eq truthy_def within_budget_small)

subsection \<open>The files joined\<close>

lemma strip_header_append:
  "prefix h bs \<Longrightarrow> strip_header h (bs @ x) = strip_header h bs @ x"
  by (auto simp: strip_header_def prefix_def)

lemma strip_header_self [simp]: "strip_header h h = []"
  by (simp add: strip_header_def)

lemma concat_map_last_upd:
  assumes "fs \<noteq> []" "distinct fs"
    and "\<And>g. g \<in> set fs \<Longrightarrow> g \<noteq> last fs \<Longrightarrow> F' g = F g"
    and "F' (last fs) = F (last fs) @ x"
  shows "concat (map F' fs) = concat (map F fs) @ x"
  using assms
proof (induction fs)
  case Nil
  then show ?case by simp
next
  case (Cons a r)
  show ?case
  proof (cases "r = []")
    case True
    with Cons.prems(4) show ?thesis by simp
  next
    case False
    then have l: "last (a # r) = last r" by simp
    from False Cons.prems(2) have an: "a \<noteq> last r" by auto
    have "concat (map F' r) = concat (map F r) @ x"
    proof (rule Cons.IH [OF False])
      show "distinct r" using Cons.prems(2) by simp
      show "F' (last r) = F (last r) @ x" using Cons.prems(4) l by simp
      fix g assume "g \<in> set r" "g \<noteq> last r"
      then show "F' g = F g" using Cons.prems(3) [of g] l by simp
    qed
    moreover have "F' a = F a" using Cons.prems(3) [of a] an l by simp
    ultimately show ?thesis by simp
  qed
qed

lemma joined_write_chunk:
  assumes j: "joined W w" and s: "seeded w"
  shows "joined (W @ c) (write_chunk w c)"
proof -
  from j obtain f fs where g: "generated_files w = f # fs" and d: "distinct (f # fs)"
    and cur: "current_file w = last (f # fs)"
    and jo: "joined_output w = utf8_encode W"
    by (cases "generated_files w") (auto simp: joined_def)
  let ?w = "write_chunk w c"
  let ?F = "\<lambda>g. strip_header (header_bytes w) (content_of w g)"
  let ?F' = "\<lambda>g. strip_header (header_bytes ?w) (content_of ?w g)"
  have "joined_output ?w = joined_output w @ utf8_encode c"
  proof (cases "fs = []")
    case True
    with g cur show ?thesis by (simp add: joined_output_def content_of_write_chunk)
  next
    case False
    with cur have cl: "current_file w = last fs" by simp
    from False d have fl: "f \<noteq> last fs" by auto
    have pre: "prefix (header_bytes w) (content_of w (last fs))"
      using s g False by (simp add: seeded_def)
    have "concat (map ?F' fs) = concat (map ?F fs) @ utf8_encode c"
    proof (rule concat_map_last_upd [OF False])
      show "distinct fs" using d by simp
      show "?F' (last fs) = ?F (last fs) @ utf8_encode c"
        using pre cl by (simp add: content_of_write_chunk strip_header_append)
      fix g assume "g \<in> set fs" "g \<noteq> last fs"
      then show "?F' g = ?F g" using cl by (simp add: content_of_write_chunk)
    qed
    with g cl fl show ?thesis
      by (simp add: joined_output_def content_of_write_chunk)
  qed
  with j show ?thesis by (simp add: joined_def utf8_encode_append)
qed

lemma joined_next_file:
  assumes j: "joined W w" and i: "1 \<le> current_file_index w"
    and fresh: "get_filename (w\<lparr>current_file_index := current_file_index w + 1\<rparr>)
                \<notin> set (generated_files w)"
  shows "joined W (next_file w)"
proof -
  let ?f' = "get_filename (w\<lparr>current_file_index := current_file_index w + 1\<rparr>)"
  from j obtain f fs where g: "generated_files w = f # fs" and d: "distinct (f # fs)"
    and jo: "joined_output w = utf8_encode W"
    by (cases "generated_files w") (auto simp: joined_def)
  have c: "content_of (next_file w) x = content_of w x" if "x \<in> set (f # fs)" for x
    using that fresh g by (auto simp: content_of_next_file)
  have c': "content_of (next_file w) ?f' = header_bytes w"
    using i by (simp add: content_of_next_file seed_next)
  have m: "concat (map (\<lambda>g. strip_header (header_bytes w) (content_of (next_file w) g)) fs)
        = concat (map (\<lambda>g. strip_header (header_bytes w) (content_of w g)) fs)"
    by (rule arg_cong [where f = concat], rule map_cong) (simp_all add: c)
  have "joined_output (next_file w) = joined_output w"
    using g c [of f] c'
    by (simp add: joined_output_def generated_files_next_file m)
  moreover have "current_file (next_file w) = ?f'" by (simp add: next_file_eq)
  ultimately show ?thesis
    using j fresh by (simp add: joined_def generated_files_next_file)
qed

text \<open>The three invariants together.\<close>

lemma J_next_file:
  assumes "B \<noteq> 0" "names_ok b B w" "seeded w" "joined W w"
  shows "names_ok b B (next_file w) \<and> seeded (next_file w) \<and> joined W (next_file w)"
proof -
  have "get_filename (w\<lparr>current_file_index := current_file_index w + 1\<rparr>)
        = split_name b (current_file_index w + 1)"
    using assms(1,2) by (simp add: get_filename_split names_ok_def)
  with names_ok_fresh [OF assms(2)]
  have "get_filename (w\<lparr>current_file_index := current_file_index w + 1\<rparr>)
        \<notin> set (generated_files w)" by simp
  moreover have "1 \<le> current_file_index w" using assms(2) by (simp add: names_ok_def)
  ultimately show ?thesis
    using assms by (simp add: names_ok_next_file seeded_next_file joined_next_file)
qed

lemma J_write_chunk:
  assumes "names_ok b B w" "seeded w" "joined W w"
  shows "names_ok b B (write_chunk w c) \<and> seeded (write_chunk w c)
         \<and> joined (W @ c) (write_chunk w c)"
  using assms by (simp add: names_ok_write_chunk seeded_write_chunk joined_write_chunk)

lemma write_iter_J:
  assumes B: "B \<noteq> 0" and J: "names_ok b B w \<and> seeded w \<and> joined W w"
    and v: "valid_text remaining" and ne: "remaining \<noteq> []"
    and it: "write_iter w remaining = (brk, w2, remaining2)"
  shows "\<exists>W2. (names_ok b B w2 \<and> seeded w2 \<and> joined W2 w2)
           \<and> (if brk then W2 = W @ remaining else W2 @ remaining2 = W @ remaining)
           \<and> valid_text remaining2"
proof -
  define w1 where "w1 = (if split_size w \<le> current_size w then next_file w else w)"
  have J1: "names_ok b B w1 \<and> seeded w1 \<and> joined W w1"
    using J J_next_file [OF B, of b w W] by (simp add: w1_def)
  from v ne it show ?thesis
  proof (cases rule: write_iter_cases)
    case fit
    note f = fit [folded w1_def]
    from J1 J_write_chunk [of b B w1 W remaining] f v show ?thesis by auto
  next
    case (split chunk)
    note f = split [folded w1_def]
    from J1 J_write_chunk [of b B w1 W chunk]
    have "names_ok b B (write_chunk w1 chunk) \<and> seeded (write_chunk w1 chunk)
          \<and> joined (W @ chunk) (write_chunk w1 chunk)" by simp
    with J_next_file [OF B, of b "write_chunk w1 chunk" "W @ chunk"]
    have "names_ok b B w2 \<and> seeded w2 \<and> joined (W @ chunk) w2" using f by simp
    moreover from f(5) have "(W @ chunk) @ remaining2 = W @ remaining"
      using f(3) by (simp add: prefix_take_drop)
    ultimately show ?thesis using f v by (auto simp: valid_text_drop)
  next
    case forced
    note f = forced [folded w1_def]
    from J1 J_write_chunk [of b B w1 W "take 100 remaining"]
    have "names_ok b B (write_chunk w1 (take 100 remaining))
          \<and> seeded (write_chunk w1 (take 100 remaining))
          \<and> joined (W @ take 100 remaining) (write_chunk w1 (take 100 remaining))" by simp
    with J_next_file [OF B, of b "write_chunk w1 (take 100 remaining)" "W @ take 100 remaining"]
    have "names_ok b B w2 \<and> seeded w2 \<and> joined (W @ take 100 remaining) w2" using f by simp
    moreover have "(W @ take 100 remaining) @ remaining2 = W @ remaining"
      using f(3) by simp
    ultimately show ?thesis using f v by (auto simp: valid_text_drop)
  next
    case stuck
    with J J_next_file [OF B, of b w W] v show ?thesis by auto
  qed
qed

lemma write_loop_J:
  assumes B: "B \<noteq> 0" and J: "names_ok b B w \<and> seeded w \<and> joined W w"
    and v: "valid_text remaining" and run: "write_loop w remaining = Some w'"
  shows "names_ok b B w' \<and> seeded w' \<and> joined (W @ remaining) w'"
proof -
  let ?T = "W @ remaining"
  let ?I = "\<lambda>w r. (\<exists>W. (names_ok b B w \<and> seeded w \<and> joined W w) \<and> W @ r = ?T) \<and> valid_text r"
  let ?Q = "\<lambda>w. names_ok b B w \<and> seeded w \<and> joined ?T w"
  show ?thesis
  proof (rule write_loop_rule [where I = ?I and Q = ?Q, OF run])
    show "?I w remaining" using J v by blast
  next
    fix w assume "?I w []" then show "?Q w" by auto
  next
    fix w r brk w2 r2
    assume I: "?I w r" and ne: "r \<noteq> []" and it: "write_iter w r = (brk, w2, r2)"
    then obtain W0 where W0: "names_ok b B w \<and> seeded w \<and> joined W0 w" "W0 @ r = ?T"
      and vr: "valid_text r" by blast
    from write_iter_J [OF B W0(1) vr ne it] W0(2)
    show "if brk then ?Q w2 else ?I w2 r2" by (auto split: if_splits)
  qed
qed

lemma J_header:
  assumes "tl (generated_files w) = []" "names_ok b B w \<and> seeded w \<and> joined W w"
  shows "names_ok b B (w\<lparr>header := h\<rparr>) \<and> seeded (w\<lparr>header := h\<rparr>)
         \<and> joined W (w\<lparr>header := h\<rparr>)"
proof -
  from assms obtain f where g: "generated_files w = [f]"
    by (cases "generated_files w") (auto simp: joined_def)
  have c: "content_of (w\<lparr>header := h\<rparr>) = content_of w"
    by (rule ext) (simp add: content_of_def)
  from assms g show ?thesis
    by (simp add: names_ok_header seeded_def joined_def joined_output_def c)
qed

lemma FileWriter_write_J:
  assumes B: "B \<noteq> 0" and J: "names_ok b B w \<and> seeded w \<and> joined W w"
    and run: "FileWriter_write w c = Some (Inr w')"
    and cap: "\<not> truthy (header w) \<and> startswith c [35, 32] \<longrightarrow> tl (generated_files w) = []"
  shows "names_ok b B w' \<and> seeded w' \<and> joined (W @ c) w'"
proof -
  from run have v: "valid_text c" by (rule FileWriter_write_valid)
  define w1 where "w1 = (if \<not> truthy (header w) \<and> startswith c [35, 32]
                         then w\<lparr>header := Some c\<rparr> else w)"
  have J1: "names_ok b B w1 \<and> seeded w1 \<and> joined W w1"
    using J cap J_header [of w b B W "Some c"] by (simp add: w1_def)
  then have "split_size w1 \<noteq> 0" using B by (simp add: names_ok_def)
  with run v have "write_loop w1 c = Some w'"
    by (auto simp: FileWriter_write_def w1_def Let_def)
  from write_loop_J [OF B J1 v this] show ?thesis .
qed

lemma writes_J:
  assumes B: "B \<noteq> 0" and J: "names_ok b B w \<and> seeded w \<and> joined W w"
    and h: "truthy (header w) \<or> (\<forall>c \<in> set ws. \<not> startswith c [35, 32])"
    and run: "writes w ws = Some (Inr w')"
  shows "names_ok b B w' \<and> seeded w' \<and> joined (W @ concat ws) w'"
  using J h run
proof (induction ws arbitrary: w W)
  case Nil
  then show ?case by simp
next
  case (Cons c cs)
  from Cons.prems(3) obtain w1 where w1: "FileWriter_write w c = Some (Inr w1)"
    and rest: "writes w1 cs = Some (Inr w')"
    by (auto split: option.splits sum.splits)
  from Cons.prems(2) have nocap: "\<not> (\<not> truthy (header w) \<and> startswith c [35, 32])" by auto
  have J1: "names_ok b B w1 \<and> seeded w1 \<and> joined (W @ c) w1"
    by (rule FileWriter_write_J [OF B Cons.prems(1) w1]) (use nocap in blast)
  from FileWriter_write_header [OF w1] nocap have "header w1 = header w" by simp
  with Cons.prems(2) have "truthy (header w1) \<or> (\<forall>c \<in> set cs. \<not> startswith c [35, 32])"
    by auto
  from Cons.IH [OF J1 this rest] show ?case by simp
qed

lemma J_init:
  assumes "0 < kb"
  shows "names_ok base (kb * 1024) (FileWriter_init d base kb force)
         \<and> seeded (FileWriter_init d base kb force) \<and> joined [] (FileWriter_init d base kb force)"
  using assms names_ok_init [OF assms, of base d force]
  by (simp add: seeded_def joined_def joined_output_def FileWriter_init_eq content_of_def)

lemma writes_joined_split:
  assumes kb: "0 < kb"
    and fn: "(ws \<noteq> [] \<and> startswith (hd ws) [35, 32]) \<or> (\<forall>c \<in> set ws. \<not> startswith c [35, 32])"
    and run: "writes (FileWriter_init d base kb force) ws = Some (Inr w')"
  shows "joined (concat ws) w'"
proof -
  let ?w0 = "FileWriter_init d base kb force"
  from kb have B: "kb * 1024 \<noteq> 0" by simp
  note J0 = J_init [OF kb, of base d force]
  show ?thesis
  proof (cases "\<forall>c \<in> set ws. \<not> startswith c [35, 32]")
    case True
    with writes_J [OF B J0 _ run] show ?thesis by simp
  next
    case False
    with fn obtain c cs where ws: "ws = c # cs" and sw: "startswith c [35, 32]"
      by (cases ws) auto
    from run ws obtain w1 where w1: "FileWriter_write ?w0 c = Some (Inr w1)"
      and rest: "writes w1 cs = Some (Inr w')"
      by (auto split: option.splits sum.splits)
    have "tl (generated_files ?w0) = []" by (simp add: FileWriter_init_eq)
    then have J1: "names_ok base (kb * 1024) w1 \<and> seeded w1 \<and> joined ([] @ c) w1"
      by (intro FileWriter_write_J [OF B J0 w1]) simp
    from FileWriter_write_header [OF w1] sw have "header w1 = Some c"
      by (simp add: FileWriter_init_eq truthy_def)
    with sw have "truthy (header w1)" by (simp add: truthy_def startswith_heading_not_Nil)
    with writes_J [OF B J1 _ rest] ws show ?thesis by simp
  qed
qed

section \<open>The claims\<close>

subsection \<open>C7: the language tag of a fenced block\<close>

text \<open>
  C7 says that a file with extension \<open>.css\<close> gets the tag \<open>css\<close> and that an
  extension absent from the static mapping gets \<open>plaintext\<close>. The mapping sends
  \<open>.css\<close> to \<open>html\<close>, so the first half fails: \<open>style.css\<close> is tagged \<open>html\<close>.
\<close>

theorem C7_css_tag_counterexample:
  "get_language_by_extension [''src'', ''style.css''] = ''html''
   \<and> get_language_by_extension [''src'', ''style.css''] \<noteq> ''css''"
  by (simp add: get_language_by_extension_def suffix_of_def name_def lower_def lower_char_def
      FILE_EXTENSION_LANGUAGE_MAP_def)

text \<open>
  C7, amended: a file whose extension, lower-cased, is \<open>.css\<close> gets the tag \<open>html\<close>,
  and a file whose lower-cased extension is absent from the static mapping gets
  \<open>plaintext\<close>.
\<close>

theorem C7_language_tag:
  "(lower (suffix_of p) = ''.css'' \<longrightarrow> get_language_by_extension p = ''html'')
   \<and> (lower (suffix_of q) \<notin> fst ` set FILE_EXTENSION_LANGUAGE_MAP
        \<longrightarrow> get_language_by_extension q = ''plaintext'')"
proof (intro conjI impI)
  assume "lower (suffix_of p) = ''.css''"
  then show "get_language_by_extension p = ''html''"
    by (simp add: get_language_by_extension_def FILE_EXTENSION_LANGUAGE_MAP_def)
next
  assume "lower (suffix_of q) \<notin> fst ` set FILE_EXTENSION_LANGUAGE_MAP"
  then have "map_of FILE_EXTENSION_LANGUAGE_MAP (lower (suffix_of q)) = None"
    by (simp add: map_of_eq_None_iff)
  then show "get_language_by_extension q = ''plaintext''"
    by (simp add: get_language_by_extension_def)
qed

theorem C7_language_tag_witness:
  "lower (suffix_of [''src'', ''Style.CSS'']) = ''.css''
   \<and> get_language_by_extension [''src'', ''Style.CSS''] = ''html''
   \<and> lower (suffix_of [''src'', ''notes.txt'']) \<notin> fst ` set FILE_EXTENSION_LANGUAGE_MAP
   \<and> get_language_by_extension [''src'', ''notes.txt''] = ''plaintext''"
proof -
  have h1: "lower (suffix_of [''src'', ''Style.CSS'']) = ''.css''"
    by code_simp
  have h2: "lower (suffix_of [''src'', ''notes.txt'']) \<notin> fst ` set FILE_EXTENSION_LANGUAGE_MAP"
    by code_simp
  from C7_language_tag [of "[''src'', ''Style.CSS'']" "[''src'', ''notes.txt'']"] h1 h2
  show ?thesis by blast
qed

subsection \<open>C4: an output path that already exists\<close>

text \<open>
  C4 says that constructing the writer on an existing path without force-overwrite fails
  with an "already exists" error and leaves the file's bytes as they were. The
  constructor has no failing outcome: here, on a disk where \<open>out.md\<close> holds
  \<open>Original content\<close> and with \<open>force_overwrite = False\<close>, it returns a writer, and
  \<open>out.md\<close> is empty afterwards.
\<close>

theorem C4_existing_file_truncated:
  "disk (FileWriter_init [[''out.md''] \<mapsto> str_of ''Original content''] [''out.md''] 0 False)
     [''out.md''] = Some []
   \<and> generated_files
        (FileWriter_init [[''out.md''] \<mapsto> str_of ''Original content''] [''out.md''] 0 False)
      = [[''out.md'']]"
  by (simp add: FileWriter_init_eq)

subsection \<open>C9: the names of the generated files\<close>



subsection \<open>C2: no truncated UTF-8 sequence\<close>

text \<open>
  C2: for every split budget greater than 0 and every sequence of writes of valid
  Unicode text, no generated file contains a truncated multi-byte UTF-8 sequence (the
  bytes of every generated file decode as UTF-8), and every split point the splitter
  chooses lies between two code points: the chunk it cuts off is a prefix of the text,
  and its encoding is what the bytes up to the split point hold.
\<close>

theorem C2_no_truncated_utf8:
  assumes "0 < kb" "list_all valid_text ws"
    and "writes (FileWriter_init d base kb force) ws = Some (Inr w')"
  shows "(\<forall>f \<in> set (generated_files w'). \<exists>bs t. disk w' f = Some bs \<and> utf8_decode bs = Some t)
         \<and> (\<forall>s k chunk k'. valid_text s \<and> find_chunk k (utf8_encode s) = (Some chunk, k')
               \<longrightarrow> prefix chunk s \<and> utf8_encode chunk = take (nat k') (utf8_encode s))"
proof (intro conjI allI impI ballI)
  fix f assume f: "f \<in> set (generated_files w')"
  from writes_files_utf8 [OF assms(3) files_utf8_init] f
  obtain t where "valid_text t" "disk w' f = Some (utf8_encode t)"
    by (auto simp: files_utf8_def)
  with utf8_roundtrip [of t] show "\<exists>bs t. disk w' f = Some bs \<and> utf8_decode bs = Some t"
    by blast
next
  fix s k chunk k'
  assume a: "valid_text s \<and> find_chunk k (utf8_encode s) = (Some chunk, k')"
  then have "utf8_decode (take (nat k') (utf8_encode s)) = Some chunk"
    using find_chunk_Some by blast
  with a utf8_decode_take [of s "nat k'" chunk]
  show "prefix chunk s" "utf8_encode chunk = take (nat k') (utf8_encode s)" by simp_all
qed

theorem C2_no_truncated_utf8_witness:
  "(0::int) < 1 \<and> list_all valid_text [[35, 32, 20013, 25991], [128512, 10]]
   \<and> (\<exists>w. writes (FileWriter_init Map.empty [''out'', ''merged.md''] 1 False)
              [[35, 32, 20013, 25991], [128512, 10]] = Some (Inr w)
          \<and> [''out'', ''merged_1.md''] \<in> set (generated_files w)
          \<and> (\<exists>bs t. disk w [''out'', ''merged_1.md''] = Some bs \<and> utf8_decode bs = Some t))
   \<and> valid_text [233, 10, 120]
   \<and> find_chunk 2 (utf8_encode [233, 10, 120]) = (Some [233], 2)
   \<and> prefix [233::nat] [233, 10, 120]
   \<and> utf8_encode [233] = take (nat 2) (utf8_encode [233, 10, 120])"
proof -
  have p: "(0::int) < 1" by simp
  have v: "list_all valid_text [[35, 32, 20013, 25991], [128512, 10]]" by code_simp
  have "case writes (FileWriter_init Map.empty [''out'', ''merged.md''] 1 False)
              [[35, 32, 20013, 25991], [128512, 10]] of
          Some (Inr w) \<Rightarrow> [''out'', ''merged_1.md''] \<in> set (generated_files w) | _ \<Rightarrow> False"
    by code_simp
  then obtain w where r: "writes (FileWriter_init Map.empty [''out'', ''merged.md''] 1 False)
              [[35, 32, 20013, 25991], [128512, 10]] = Some (Inr w)"
    and g: "[''out'', ''merged_1.md''] \<in> set (generated_files w)"
    by (auto split: option.splits sum.splits)
  have v2: "valid_text [233, 10, 120]" by code_simp
  have fc: "find_chunk 2 (utf8_encode [233, 10, 120]) = (Some [233], 2)" by code_simp
  note t = C2_no_truncated_utf8 [OF p v r]
  from t g have 1: "\<exists>bs t. disk w [''out'', ''merged_1.md''] = Some bs \<and> utf8_decode bs = Some t"
    by blast
  from t v2 fc have 2: "prefix [233::nat] [233, 10, 120]
    \<and> utf8_encode [233] = take (nat 2) (utf8_encode [233, 10, 120])" by blast
  from p v r g 1 2 v2 fc show ?thesis by blast
qed

subsection \<open>C6: the replicated header\<close>

text \<open>
  C6 says that the header is captured iff the very first write begins with \<open># \<close>, and
  that no header is put at the top of later files otherwise. The writer captures the
  header at any write that begins with \<open># \<close> as long as none has been captured: after
  the writes \<open>abc\<close> and \<open># h\<close> the header is \<open># h\<close>, although the first write did not
  begin with \<open># \<close>.
\<close>

theorem C6_late_capture_counterexample:
  "map_option (map_sum id header)
     (writes (FileWriter_init Map.empty [''out'', ''merged.md''] 1 False)
        [str_of ''abc'', str_of ''# h''])
   = Some (Inr (Some (str_of ''# h'')))
   \<and> \<not> startswith (str_of ''abc'') [35, 32]"
  by code_simp

text \<open>
  C6, amended: the replicated header is the first write, in call order, that begins with
  the two characters \<open># \<close> (so the very first write when that one begins with \<open># \<close>,
  and none when no write does); when the very first write begins with \<open># \<close>, every split
  file with index greater than 1 starts with this header.
\<close>

theorem C6_header_capture:
  assumes "writes (FileWriter_init d base kb force) ws = Some (Inr w')"
  shows "header w' = first_heading ws
         \<and> (0 < kb \<and> ws \<noteq> [] \<and> startswith (hd ws) [35, 32] \<longrightarrow>
              (\<forall>i. 1 < i \<and> i \<le> current_file_index w' \<longrightarrow>
                   prefix (utf8_encode (hd ws)) (content_of w' (split_name base i))))"
proof (intro conjI impI allI)
  have "\<not> truthy (header (FileWriter_init d base kb force))"
    by (simp add: FileWriter_init_eq truthy_def)
  from writes_header_unset [OF assms this]
  show "header w' = first_heading ws"
    by (simp add: FileWriter_init_eq split: option.splits)
next
  fix i
  assume a: "0 < kb \<and> ws \<noteq> [] \<and> startswith (hd ws) [35, 32]"
    and i: "1 < i \<and> i \<le> current_file_index w'"
  then obtain c cs where ws: "ws = c # cs" and sw: "startswith c [35, 32]"
    by (cases ws) auto
  let ?w0 = "FileWriter_init d base kb force"
  let ?P = "\<lambda>x. seeded x \<and> header x = Some c"
  from assms ws obtain w1 where w1: "FileWriter_write ?w0 c = Some (Inr w1)"
    and rest: "writes w1 cs = Some (Inr w')"
    by (auto split: option.splits sum.splits)
  from w1 have v: "valid_text c" by (rule FileWriter_write_valid)
  have nt: "\<not> truthy (header ?w0)" by (simp add: FileWriter_init_eq truthy_def)
  have P0: "?P (?w0\<lparr>header := Some c\<rparr>)"
    by (simp add: seeded_def FileWriter_init_eq)
  have P1: "?P w1"
    by (rule FileWriter_write_capture [of ?w0 c w1 ?P, OF w1 nt sw P0])
       (auto intro: seeded_next_file seeded_write_chunk)
  have P': "?P w'"
    by (rule writes_preserves [of w1 cs w' ?P, OF rest P1])
       (use sw in \<open>auto intro: seeded_next_file seeded_write_chunk simp: truthy_def
          dest: startswith_heading_not_Nil\<close>)
  from a assms have n: "names_ok base (kb * 1024) w'" by (auto intro: writes_names_ok)
  then have g: "generated_files w' = map (split_name base) [1..current_file_index w']"
    and i1: "1 \<le> current_file_index w'"
    by (simp_all add: names_ok_def)
  from i1 have "[1..current_file_index w'] = 1 # [2..current_file_index w']"
    by (simp add: upto_rec1)
  with g have "tl (generated_files w') = map (split_name base) [2..current_file_index w']"
    by simp
  with i have "split_name base i \<in> set (tl (generated_files w'))" by simp
  with P' have "prefix (header_bytes w') (content_of w' (split_name base i))"
    by (simp add: seeded_def)
  with P' ws show "prefix (utf8_encode (hd ws)) (content_of w' (split_name base i))"
    by (simp add: header_bytes_def)
qed

subsection \<open>C10: nothing lost, doubled or reordered\<close>

text \<open>
  C10, amended: for every split budget and every sequence of writes in which the very
  first write begins with \<open># \<close> or no write does, whenever the writes return, the final
  contents of the generated files, joined in order with the header prefix taken off
  every file after the first, are the UTF-8 encoding of the concatenated write inputs;
  and the writes do return when the texts are valid and, for a budget greater than 0,
  the header is no longer than the budget.
\<close>

theorem C10_joined_output:
  assumes "(ws \<noteq> [] \<and> startswith (hd ws) [35, 32]) \<or> (\<forall>c \<in> set ws. \<not> startswith c [35, 32])"
  shows "(\<forall>w'. writes (FileWriter_init d base kb force) ws = Some (Inr w')
               \<longrightarrow> joined_output w' = utf8_encode (concat ws))
         \<and> (list_all valid_text ws \<and> (0 < kb \<longrightarrow> heading_fits kb ws)
              \<longrightarrow> (\<exists>w'. writes (FileWriter_init d base kb force) ws = Some (Inr w')))"
proof (intro conjI allI impI)
  fix w' assume run: "writes (FileWriter_init d base kb force) ws = Some (Inr w')"
  show "joined_output w' = utf8_encode (concat ws)"
  proof (cases "0 < kb")
    case True
    from writes_joined_split [OF True assms run] show ?thesis by (simp add: joined_def)
  next
    case False
    then have kb: "kb \<le> 0" by simp
    from writes_nosplit [OF FileWriter_init_nosplit(1) [OF kb] run]
      FileWriter_init_nosplit(2-4) [OF kb, of d base force]
    show ?thesis by (simp add: joined_output_def)
  qed
next
  assume a: "list_all valid_text ws \<and> (0 < kb \<longrightarrow> heading_fits kb ws)"
  show "\<exists>w'. writes (FileWriter_init d base kb force) ws = Some (Inr w')"
  proof (cases "0 < kb")
    case True
    with a have "heading_fits kb ws" by simp
    then have "\<not> truthy (header (FileWriter_init d base kb force)) \<longrightarrow>
       (case first_heading ws of None \<Rightarrow> True
        | Some h \<Rightarrow> int (length (utf8_encode h)) \<le> kb * 1024)"
      by (simp add: heading_fits_def)
    from writes_sizes [OF sizes_ok_init [OF True] _ this] a show ?thesis by blast
  next
    case False
    then have "kb \<le> 0" by simp
    from writes_nosplit_total [OF FileWriter_init_nosplit(1) [OF this]] a show ?thesis by blast
  qed
qed

subsection \<open>C1: the size of the generated files\<close>

text \<open>
  C1, amended: for every split budget \<open>B\<close> greater than 0 and every sequence of writes of
  valid text whose replicated header, if there is one, is at most \<open>B\<close> bytes long, the
  writes return and every generated file is at most \<open>B\<close> bytes long except for at most
  one forced-fallback chunk, of at most 100 characters, at its end; the replicated
  header's byte length counts towards a split file's budget from the moment the file is
  created.
\<close>

theorem C1_size_bound:
  assumes "0 < kb" "list_all valid_text ws" "heading_fits kb ws"
  shows "(\<exists>w'. writes (FileWriter_init d base kb force) ws = Some (Inr w')
            \<and> (\<forall>f \<in> set (generated_files w').
                  \<exists>bs body forced. disk w' f = Some bs \<and> bs = body @ utf8_encode forced
                     \<and> int (length body) \<le> kb * 1024 \<and> length forced \<le> 100)
            \<and> current_size w' \<le> kb * 1024)
         \<and> (\<forall>w :: writer. 1 \<le> current_file_index w \<and> truthy (header w) \<longrightarrow>
                current_size (next_file w) = int (length (utf8_encode (the (header w))))
                \<and> disk (next_file w) (current_file (next_file w))
                    = Some (utf8_encode (the (header w))))"
proof (intro conjI allI impI)
  from assms(3) have "\<not> truthy (header (FileWriter_init d base kb force)) \<longrightarrow>
       (case first_heading ws of None \<Rightarrow> True
        | Some h \<Rightarrow> int (length (utf8_encode h)) \<le> kb * 1024)"
    by (simp add: heading_fits_def)
  from writes_sizes [OF sizes_ok_init [OF assms(1)] assms(2) this]
  obtain w' where run: "writes (FileWriter_init d base kb force) ws = Some (Inr w')"
    and s: "sizes_ok (kb * 1024) w'" by blast
  from s have "\<forall>f \<in> set (generated_files w').
                  \<exists>bs body forced. disk w' f = Some bs \<and> bs = body @ utf8_encode forced
                     \<and> int (length body) \<le> kb * 1024 \<and> length forced \<le> 100"
    unfolding sizes_ok_def within_budget_def by blast
  moreover from s have "current_size w' \<le> kb * 1024" by (simp add: sizes_ok_def)
  ultimately show "\<exists>w'. writes (FileWriter_init d base kb force) ws = Some (Inr w')
            \<and> (\<forall>f \<in> set (generated_files w').
                  \<exists>bs body forced. disk w' f = Some bs \<and> bs = body @ utf8_encode forced
                     \<and> int (length body) \<le> kb * 1024 \<and> length forced \<le> 100)
            \<and> current_size w' \<le> kb * 1024"
    using run by blast
next
  fix w :: writer assume a: "1 \<le> current_file_index w \<and> truthy (header w)"
  then show "current_size (next_file w) = int (length (utf8_encode (the (header w))))"
    by (simp add: next_file_eq seed_def)
  from a show "disk (next_file w) (current_file (next_file w))
                    = Some (utf8_encode (the (header w)))"
    by (simp add: next_file_eq seed_def)
qed

end
